theory Spec2Isabelle
  imports Complex_Main
begin

section \<open>Python strings\<close>

text \<open>
  A Python \<open>str\<close> is modelled as an Isabelle \<open>string\<close>: a list of characters, each
  one a code point below 256. On that range the regular expression class \<open>\d\<close> matches
  exactly the ASCII digits, \<open>str.strip()\<close> removes the twelve characters for which
  \<open>str.isspace\<close> holds, and \<open>str.lower()\<close> maps one character to one character.
  \<open>bytes\<close> are lists of 8-bit characters as well.
\<close>

type_synonym bytes = "char list"

definition LF :: char where
  "LF = CHR 0x0A"

definition startswith :: "string \<Rightarrow> string \<Rightarrow> bool" where
  "startswith s p = (take (length p) s = p)"

definition endswith :: "string \<Rightarrow> string \<Rightarrow> bool" where
  "endswith s p = (length p \<le> length s \<and> drop (length s - length p) s = p)"

text \<open>\<open>sub in s\<close>: the substring test.\<close>

fun py_in :: "string \<Rightarrow> string \<Rightarrow> bool" where
  "py_in sub [] = (sub = [])"
| "py_in sub (c # cs) = (startswith (c # cs) sub \<or> py_in sub cs)"

text \<open>\<open>s.split(sep)\<close> for a one-character separator: empty fields are kept.\<close>

fun split_sep :: "char \<Rightarrow> string \<Rightarrow> string list" where
  "split_sep sep [] = [[]]"
| "split_sep sep (c # cs) =
     (if c = sep then [] # split_sep sep cs
      else (case split_sep sep cs of [] \<Rightarrow> [[c]] | x # xs \<Rightarrow> (c # x) # xs))"

text \<open>\<open>sep.join(parts)\<close>.\<close>

fun join :: "string \<Rightarrow> string list \<Rightarrow> string" where
  "join sep [] = []"
| "join sep [x] = x"
| "join sep (x # y # ys) = x @ sep @ join sep (y # ys)"

definition is_digit :: "char \<Rightarrow> bool" where
  "is_digit c = (let n = (of_char c :: nat) in 48 \<le> n \<and> n \<le> 57)"

definition is_space :: "char \<Rightarrow> bool" where
  "is_space c = (let n = (of_char c :: nat) in
     (9 \<le> n \<and> n \<le> 13) \<or> (28 \<le> n \<and> n \<le> 32) \<or> n = 133 \<or> n = 160)"

definition strip :: "string \<Rightarrow> string" where
  "strip s = rev (dropWhile is_space (rev (dropWhile is_space s)))"

definition lower_char :: "char \<Rightarrow> char" where
  "lower_char c = (let n = (of_char c :: nat) in
     if (65 \<le> n \<and> n \<le> 90) \<or> (192 \<le> n \<and> n \<le> 222 \<and> n \<noteq> 215)
     then char_of (n + 32) else c)"

definition lower :: "string \<Rightarrow> string" where
  "lower s = map lower_char s"

text \<open>\<open>s.rfind(c)\<close>; Python's \<open>-1\<close> is \<open>None\<close>.\<close>

definition rfind :: "string \<Rightarrow> char \<Rightarrow> nat option" where
  "rfind s c = (if c \<in> set s
     then Some (length s - 1 - length (takeWhile (\<lambda>x. x \<noteq> c) (rev s))) else None)"

section \<open>\<open>pathlib.PurePosixPath\<close>\<close>

text \<open>
  \<open>PurePosixPath(p).parts\<close>: the path is split at \<open>/\<close>; empty segments and \<open>.\<close>
  segments are dropped; a path that starts with a slash has the root as its first part
  (\<open>//\<close> when it starts with exactly two slashes, \<open>/\<close> otherwise).
\<close>

definition path_root :: "string \<Rightarrow> string" where
  "path_root p = (let k = length (takeWhile (\<lambda>c. c = CHR ''/'') p) in
     if k = 0 then [] else if k = 2 then ''//'' else ''/'')"

definition path_parts :: "string \<Rightarrow> string list" where
  "path_parts p =
     (if path_root p = [] then [] else [path_root p]) @
     filter (\<lambda>x. x \<noteq> [] \<and> x \<noteq> ''.'') (split_sep (CHR ''/'') (dropWhile (\<lambda>c. c = CHR ''/'') p))"

text \<open>\<open>PurePosixPath(p).name\<close>: the last part, or the empty string when the path has
  no part besides its root.\<close>

definition path_name :: "string \<Rightarrow> string" where
  "path_name p = (let parts = path_parts p in
     if length parts = (if path_root p = [] then 0 else 1) then [] else last parts)"

text \<open>\<open>PurePosixPath(p).suffix\<close>: from the last dot of the name on, when that dot is
  neither the first nor the last character of the name.\<close>

definition path_suffix :: "string \<Rightarrow> string" where
  "path_suffix p = (let name = path_name p in
     case rfind name (CHR ''.'') of
       None \<Rightarrow> []
     | Some i \<Rightarrow> if 0 < i \<and> i < length name - 1 then drop i name else [])"

section \<open>Archive extraction (\<open>parsers/zip_handler.py\<close>)\<close>

subsection \<open>The Moodle folder pattern\<close>

text \<open>
  \<open>re.match(r"^(.+?)_\d+_assignsubmission_", folder_name)\<close>.
  \<open>moodle_tail s\<close> holds when \<open>_\d+_assignsubmission_\<close> matches at the start of \<open>s\<close>:
  the digits are followed by an underscore, which is no digit, so only the whole run of
  digits can match \<open>\d+\<close>. \<open>match_group acc s\<close> extends the lazy group \<open>(.+?)\<close>, which
  holds \<open>acc\<close> already, one character at a time until the tail matches; the dot does
  not match a line feed.
\<close>

definition moodle_tail :: "string \<Rightarrow> bool" where
  "moodle_tail s = (case s of
       [] \<Rightarrow> False
     | c # r \<Rightarrow> c = CHR ''_'' \<and> takeWhile is_digit r \<noteq> [] \<and>
         startswith (dropWhile is_digit r) ''_assignsubmission_'')"

fun match_group :: "string \<Rightarrow> string \<Rightarrow> string option" where
  "match_group acc [] = None"
| "match_group acc (c # cs) =
     (if moodle_tail (c # cs) then Some acc
      else if c = LF then None
      else match_group (acc @ [c]) cs)"

definition re_match_moodle :: "string \<Rightarrow> string option" where
  "re_match_moodle s = (case s of
       [] \<Rightarrow> None
     | c # cs \<Rightarrow> if c = LF then None else match_group [c] cs)"

definition extract_student_name_from_moodle_folder :: "string \<Rightarrow> string option" where
  "extract_student_name_from_moodle_folder folder_name =
     (case re_match_moodle folder_name of
        Some g \<Rightarrow> Some (strip g)
      | None \<Rightarrow> None)"

subsection \<open>The archive\<close>

text \<open>
  \<open>zipfile.ZipFile\<close> belongs to the standard library. An opened archive is what the code
  uses of it: \<open>infolist()\<close>, the member entries in archive order, each with its
  \<open>filename\<close>, and \<open>read(name)\<close>, which returns the bytes of a member or raises.
  \<open>ZipInfo.is_dir()\<close> holds for a name that ends with a slash.
\<close>

datatype py_error = BadZipFile | MemberReadError | ParserError

datatype zip_info = ZipInfo (filename: string)

record zip_file =
  infolist :: "zip_info list"
  read :: "string \<Rightarrow> py_error + bytes"

definition is_dir :: "zip_info \<Rightarrow> bool" where
  "is_dir file_info = endswith (filename file_info) ''/''"

subsection \<open>The \<open>students\<close> dictionary\<close>

text \<open>
  A Python \<open>dict\<close> keeps its keys in insertion order: an association list with distinct
  keys, a new key going to the end.
\<close>

type_synonym students = "(string \<times> (string \<times> bytes) list) list"

definition dict_contains :: "students \<Rightarrow> string \<Rightarrow> bool" where
  "dict_contains d k = (k \<in> set (map fst d))"

text \<open>\<open>students[k] = []\<close>, used for a key that is absent.\<close>

definition dict_new_key :: "students \<Rightarrow> string \<Rightarrow> students" where
  "dict_new_key d k = d @ [(k, [])]"

text \<open>\<open>students[k].append(v)\<close>.\<close>

definition dict_append :: "students \<Rightarrow> string \<Rightarrow> string \<times> bytes \<Rightarrow> students" where
  "dict_append d k v = map (\<lambda>(k', vs). if k' = k then (k', vs @ [v]) else (k', vs)) d"

subsection \<open>\<open>extract_student_submissions\<close>\<close>

text \<open>The inner loop over \<open>parts[:-1]\<close>: the first folder whose Moodle name is truthy
  (a non-empty string) ends the loop.\<close>

fun moodle_scan :: "string list \<Rightarrow> string option" where
  "moodle_scan [] = None"
| "moodle_scan (part # rest) =
     (case extract_student_name_from_moodle_folder part of
        Some moodle_name \<Rightarrow> if moodle_name \<noteq> [] then Some moodle_name else moodle_scan rest
      | None \<Rightarrow> moodle_scan rest)"

text \<open>The loop over \<open>zf.infolist()\<close>, with the dictionary built so far. A member that
  cannot be read raises out of the loop.\<close>

fun extract_loop :: "(string \<Rightarrow> py_error + bytes) \<Rightarrow> students \<Rightarrow> zip_info list \<Rightarrow> py_error + students" where
  "extract_loop rd students [] = Inr students"
| "extract_loop rd students (file_info # rest) =
     (if is_dir file_info \<or> py_in ''__MACOSX'' (filename file_info)
      then extract_loop rd students rest
      else let parts = path_parts (filename file_info);
               name = path_name (filename file_info)
        in if startswith name ''.'' then extract_loop rd students rest
        else if length parts < 2 then extract_loop rd students rest
        else let student_name = (case moodle_scan (butlast parts) of
                                   Some moodle_name \<Rightarrow> moodle_name
                                 | None \<Rightarrow> parts ! 0)
          in case rd (filename file_info) of
               Inl e \<Rightarrow> Inl e
             | Inr content \<Rightarrow>
                 let students1 = (if \<not> dict_contains students student_name
                                  then dict_new_key students student_name else students)
                 in extract_loop rd (dict_append students1 student_name (name, content)) rest)"

text \<open>\<open>ZipFile(io.BytesIO(zip_content))\<close> raises \<open>BadZipFile\<close> for bytes that are no zip
  archive; opening is a parameter of the model.\<close>

definition extract_student_submissions ::
  "(bytes \<Rightarrow> py_error + zip_file) \<Rightarrow> bytes \<Rightarrow> py_error + students" where
  "extract_student_submissions open_zip zip_content =
     (case open_zip zip_content of
        Inl e \<Rightarrow> Inl e
      | Inr zf \<Rightarrow> extract_loop (read zf) [] (infolist zf))"


subsection \<open>The caller in \<open>main.py\<close>\<close>

text \<open>
  \<open>main.py\<close> calls \<open>extract_student_submissions\<close> outside any \<open>try\<close>: an exception ends
  the script run. On an empty dictionary it shows the message "Aucun travail d'etudiant
  trouve dans le ZIP." with \<open>st.error\<close> and calls \<open>st.stop()\<close>. Everything that follows in
  the script (document parsing, the evaluation calls, the export) is the continuation
  \<open>rest_of_script\<close>.
\<close>

datatype 'a script_run = Uncaught py_error | Stopped_no_student_found | Continued 'a

definition main_extraction ::
  "(bytes \<Rightarrow> py_error + zip_file) \<Rightarrow> bytes \<Rightarrow> (students \<Rightarrow> 'a) \<Rightarrow> 'a script_run" where
  "main_extraction open_zip zip_content rest_of_script =
     (case extract_student_submissions open_zip zip_content of
        Inl e \<Rightarrow> Uncaught e
      | Inr student_submissions \<Rightarrow>
          if student_submissions = [] then Stopped_no_student_found
          else Continued (rest_of_script student_submissions))"

subsection \<open>What the loop is specified to do\<close>

text \<open>The entries that the specification excludes: directory entries, entries with the
  metadata marker in their path, entries with a dot-prefixed leaf name, and entries with
  fewer than two path segments.\<close>

definition skipped :: "zip_info \<Rightarrow> bool" where
  "skipped file_info =
     (is_dir file_info \<or> py_in ''__MACOSX'' (filename file_info) \<or>
      startswith (path_name (filename file_info)) ''.'' \<or>
      length (path_parts (filename file_info)) < 2)"

text \<open>The student name that an entry is filed under.\<close>

definition derived_name :: "zip_info \<Rightarrow> string" where
  "derived_name file_info = (let parts = path_parts (filename file_info) in
     case moodle_scan (butlast parts) of Some moodle_name \<Rightarrow> moodle_name | None \<Rightarrow> parts ! 0)"

text \<open>The two dictionary statements of the loop body, taken together.\<close>

definition dict_add :: "students \<Rightarrow> string \<Rightarrow> string \<times> bytes \<Rightarrow> students" where
  "dict_add d k v = dict_append (if \<not> dict_contains d k then dict_new_key d k else d) k v"

text \<open>The files of student \<open>s\<close> as the specification describes them: the entries that are
  not skipped and derive to \<open>s\<close>, in archive traversal order, each as the pair of its
  leaf name and its bytes.\<close>

definition files_in_traversal_order ::
  "(string \<Rightarrow> py_error + bytes) \<Rightarrow> zip_info list \<Rightarrow> string \<Rightarrow> (string \<times> bytes) list" where
  "files_in_traversal_order rd infos s = concat (map (\<lambda>file_info.
      if \<not> skipped file_info \<and> derived_name file_info = s
      then (case rd (filename file_info) of
              Inr content \<Rightarrow> [(path_name (filename file_info), content)]
            | Inl e \<Rightarrow> [])
      else []) infos)"

text \<open>A folder name gives no student name: the pattern does not match, or the captured
  name is empty once trimmed.\<close>

definition no_moodle_name :: "string \<Rightarrow> bool" where
  "no_moodle_name part =
     (extract_student_name_from_moodle_folder part = None \<or>
      extract_student_name_from_moodle_folder part = Some [])"

section \<open>Document dispatch (\<open>parse_document\<close> in \<open>parsers/zip_handler.py\<close>)\<close>

text \<open>
  The four format parsers call external libraries (PyMuPDF, python-docx, openpyxl,
  BeautifulSoup) and may raise; \<open>content.decode("utf-8", errors="replace")\<close> returns a
  string for every byte sequence. All five are parameters of the model.
\<close>

record parsers =
  parse_pdf :: "bytes \<Rightarrow> py_error + string"
  parse_docx :: "bytes \<Rightarrow> py_error + string"
  parse_excel :: "bytes \<Rightarrow> py_error + string"
  parse_html :: "bytes \<Rightarrow> py_error + string"
  decode_utf8_replace :: "bytes \<Rightarrow> string"

definition get_supported_extensions :: "string set" where
  "get_supported_extensions =
     {''.pdf'', ''.docx'', ''.xlsx'', ''.xls'', ''.txt'', ''.md'', ''.html'', ''.htm''}"

text \<open>A returned string is \<open>Some\<close>, the returned \<open>None\<close> is \<open>None\<close>, and an exception
  of a parser is \<open>Inl\<close>.\<close>

definition parse_document :: "parsers \<Rightarrow> string \<Rightarrow> bytes \<Rightarrow> py_error + string option" where
  "parse_document P file_name content =
     (let ext = lower (path_suffix file_name) in
      if ext = ''.pdf'' then map_sum id Some (parse_pdf P content)
      else if ext = ''.docx'' then map_sum id Some (parse_docx P content)
      else if ext \<in> {''.xlsx'', ''.xls''} then map_sum id Some (parse_excel P content)
      else if ext \<in> {''.html'', ''.htm''} then map_sum id Some (parse_html P content)
      else if ext \<in> {''.txt'', ''.md''} then Inr (Some (decode_utf8_replace P content))
      else Inr None)"

section \<open>Prompt composition (\<open>evaluation/llm_evaluator.py\<close>)\<close>

text \<open>
  The headings of the source, with their accented letters as code points: apostrophe
  \<open>0x27\<close>, e acute \<open>0xE9\<close>, a grave \<open>0xE0\<close>.
\<close>

definition grid_heading :: string where
  "grid_heading = ''## Grille d'' @ [CHR 0x27, CHR 0xE9] @ ''valuation'' @ [LF]"

definition knowledge_heading :: string where
  "knowledge_heading = [LF, LF] @ ''## Base de connaissances / Documents de r'' @ [CHR 0xE9] @
     ''f'' @ [CHR 0xE9] @ ''rence'' @ [LF]"

definition instructions_heading :: string where
  "instructions_heading = [LF, LF] @ ''## Instructions suppl'' @ [CHR 0xE9] @
     ''mentaires du professeur'' @ [LF]"

definition format_heading :: string where
  "format_heading = [LF, LF] @ ''## Format de sortie attendu'' @ [LF]"

definition work_heading :: string where
  "work_heading = [LF, LF] @ ''## Travail de l'' @ [CHR 0x27, CHR 0xE9] @ ''tudiant '' @
     [CHR 0xE0] @ '' '' @ [CHR 0xE9] @ ''valuer'' @ [LF]"

definition named_work_heading :: "string \<Rightarrow> string" where
  "named_work_heading student_name =
     [LF, LF] @ ''## Travail de l'' @ [CHR 0x27, CHR 0xE9] @ ''tudiant ('' @ student_name @
     '') '' @ [CHR 0xE0] @ '' '' @ [CHR 0xE9] @ ''valuer'' @ [LF]"

text \<open>\<open>build_evaluation_prompt\<close>: the parts are appended to a list and joined with a
  line feed. An empty string is falsy.\<close>

definition build_evaluation_prompt :: "string \<Rightarrow> string \<Rightarrow> string \<Rightarrow> string \<Rightarrow> string" where
  "build_evaluation_prompt student_work evaluation_grid knowledge_base custom_instructions =
     join [LF]
       ([grid_heading, evaluation_grid] @
        (if knowledge_base \<noteq> [] then [knowledge_heading, knowledge_base] else []) @
        (if custom_instructions \<noteq> [] then [instructions_heading, custom_instructions] else []) @
        [work_heading, student_work])"

text \<open>The \<open>messages\<close> that \<open>evaluate_student_work\<close> and \<open>evaluate_student_work_async\<close>
  send: pairs of role and content.\<close>

definition evaluate_student_work_messages ::
  "string \<Rightarrow> string \<Rightarrow> string \<Rightarrow> string \<Rightarrow> string \<Rightarrow> string \<Rightarrow> (string \<times> string) list" where
  "evaluate_student_work_messages student_name student_work evaluation_grid knowledge_base
       system_prompt custom_instructions =
     [(''system'', system_prompt),
      (''user'', build_evaluation_prompt student_work evaluation_grid knowledge_base
                   custom_instructions)]"

text \<open>The user prompt that \<open>evaluate_student_work_free_format\<close> and its async version
  build in their own body.\<close>

definition free_format_prompt ::
  "string \<Rightarrow> string \<Rightarrow> string \<Rightarrow> string \<Rightarrow> string \<Rightarrow> string \<Rightarrow> string" where
  "free_format_prompt student_name student_work evaluation_grid knowledge_base
       output_format_instructions custom_instructions =
     join [LF]
       ((if evaluation_grid \<noteq> [] then [grid_heading, evaluation_grid] else []) @
        (if knowledge_base \<noteq> [] then [knowledge_heading, knowledge_base] else []) @
        (if custom_instructions \<noteq> [] then [instructions_heading, custom_instructions] else []) @
        [format_heading, output_format_instructions] @
        [named_work_heading student_name, student_work])"

definition evaluate_student_work_free_format_messages ::
  "string \<Rightarrow> string \<Rightarrow> string \<Rightarrow> string \<Rightarrow> string \<Rightarrow> string \<Rightarrow> string \<Rightarrow>
     (string \<times> string) list" where
  "evaluate_student_work_free_format_messages student_name student_work evaluation_grid
       knowledge_base system_prompt output_format_instructions custom_instructions =
     [(''system'', system_prompt),
      (''user'', free_format_prompt student_name student_work evaluation_grid knowledge_base
                   output_format_instructions custom_instructions)]"

text \<open>The composition as the specification describes it: labelled sections, each a
  heading line followed by its body, in a given order, separated by a line feed.\<close>

definition labelled_section :: "string \<times> string \<Rightarrow> string" where
  "labelled_section hb = fst hb @ [LF] @ snd hb"

definition sections_in_order :: "(string \<times> string) list \<Rightarrow> string" where
  "sections_in_order secs = join [LF] (map labelled_section secs)"

text \<open>A section that is left out when its body is empty.\<close>

definition optional_section :: "string \<Rightarrow> string \<Rightarrow> (string \<times> string) list" where
  "optional_section heading body = (if body = [] then [] else [(heading, body)])"

section \<open>The evaluation orchestrator (\<open>evaluation/llm_evaluator.py\<close>)\<close>

subsection \<open>Results and exceptions\<close>

text \<open>An object of class \<open>Exception\<close>, with its message. This is what the network client,
  \<open>json.loads\<close> and a missing key raise, and what \<open>except Exception\<close> catches. Cancellation
  and the other exceptions outside that class are not part of the model.\<close>

datatype exn = Exn string

text \<open>\<open>CriterionEvaluation\<close>; its fields \<open>note\<close> and \<open>note_max\<close> are \<open>note_critere\<close> and
  \<open>note_max_critere\<close> here.\<close>

record criterion_evaluation =
  nom :: string
  note_critere :: int
  note_max_critere :: int
  commentaire :: string

record evaluation_result =
  student_name :: string
  feedback_general :: string
  criteres :: "criterion_evaluation list"
  note_finale :: real
  note_max :: real

text \<open>The decoded JSON object of a structured response: \<open>feedback_general\<close>, \<open>criteres\<close>,
  \<open>note_finale\<close> and \<open>note_max\<close>. The numbers are carried through as they are.\<close>

type_synonym result_json = "string \<times> criterion_evaluation list \<times> real \<times> real"

text \<open>The \<open>EvaluationResult(student_name=student_name, ...)\<close> at the end of
  \<open>evaluate_student_work_async\<close>.\<close>

definition make_evaluation_result :: "string \<Rightarrow> result_json \<Rightarrow> evaluation_result" where
  "make_evaluation_result name j = (case j of (fb, cs, nf, nm) \<Rightarrow>
     \<lparr>student_name = name, feedback_general = fb, criteres = cs,
      note_finale = nf, note_max = nm\<rparr>)"

subsection \<open>The run\<close>

text \<open>
  The arguments of \<open>evaluate_all_students_async\<close> that decide the scheduling: the
  dictionary of submissions in insertion order, the limit, and the callback. A callback
  \<open>cb\<close> is called as \<open>cb completed total student_name\<close>; it returns (\<open>None\<close>) or raises
  an exception (\<open>Some e\<close>).
\<close>

record config =
  student_submissions :: "(string \<times> string) list"
  max_concurrent :: int
  progress_callback :: "(nat \<Rightarrow> nat \<Rightarrow> string \<Rightarrow> exn option) option"

text \<open>
  \<open>asyncio\<close> runs the tasks of \<open>gather\<close> on one thread and switches between them at an
  \<open>await\<close> that suspends only. A task of \<open>evaluate_with_semaphore\<close> suspends at two places:
  in \<open>async with semaphore\<close> while the semaphore's value is zero, and in the request to the
  model. So a task is waiting for the semaphore, running (its request is in flight), or
  finished: it returned an outcome, or it raised.
\<close>

datatype 'o task = Waiting | Running | Returned 'o | Raised exn

record 'o run_state =
  sem_value :: nat
  completed :: nat
  calls :: "(nat \<times> nat \<times> string) list"
  tasks :: "'o task list"
  first_raised :: "exn option"

text \<open>
  What happens next is not decided by the code: which waiting task enters the semaphore,
  which request is answered, and with what. An event names the task by its position in
  the dictionary. \<open>Respond i r\<close> is the end of the evaluation call of task \<open>i\<close>: it raised
  (\<open>Inl\<close>) or returned its value (\<open>Inr\<close>).
\<close>

datatype 'p event = Acquire nat | Respond nat "exn + 'p"

definition total :: "config \<Rightarrow> nat" where
  "total cfg = length (student_submissions cfg)"

text \<open>\<open>completed += 1\<close> and \<open>if progress_callback: progress_callback(completed, total,
  student_name)\<close>. The invocation is recorded in \<open>calls\<close>; the second component is the
  exception of the callback, if it raised.\<close>

definition count_and_notify ::
  "config \<Rightarrow> string \<Rightarrow> 'o run_state \<Rightarrow> 'o run_state \<times> exn option" where
  "count_and_notify cfg name s =
     (let s1 = s\<lparr>completed := completed s + 1\<rparr> in
      case progress_callback cfg of
        None \<Rightarrow> (s1, None)
      | Some cb \<Rightarrow>
          (s1\<lparr>calls := calls s1 @ [(completed s1, total cfg, name)]\<rparr>,
           cb (completed s1) (total cfg) name))"

text \<open>The \<open>except Exception as e\<close> branch: the task returns \<open>on_failure name e\<close>, unless
  the callback raises here, which nothing catches.\<close>

definition except_branch ::
  "config \<Rightarrow> (string \<Rightarrow> exn \<Rightarrow> 'o) \<Rightarrow> string \<Rightarrow> exn \<Rightarrow> 'o run_state \<Rightarrow> 'o run_state \<times> 'o task" where
  "except_branch cfg on_failure name e s =
     (case count_and_notify cfg name s of
        (s1, None) \<Rightarrow> (s1, Returned (on_failure name e))
      | (s1, Some e2) \<Rightarrow> (s1, Raised e2))"

text \<open>The \<open>try\<close> statement, from the end of the evaluation call on. An exception of the
  callback in the \<open>try\<close> body is caught like one of the call.\<close>

definition try_statement ::
  "config \<Rightarrow> (string \<Rightarrow> 'p \<Rightarrow> 'o) \<Rightarrow> (string \<Rightarrow> exn \<Rightarrow> 'o) \<Rightarrow> string \<Rightarrow> exn + 'p \<Rightarrow>
     'o run_state \<Rightarrow> 'o run_state \<times> 'o task" where
  "try_statement cfg on_success on_failure name r s =
     (case r of
        Inl e \<Rightarrow> except_branch cfg on_failure name e s
      | Inr result \<Rightarrow>
          (case count_and_notify cfg name s of
             (s1, None) \<Rightarrow> (s1, Returned (on_success name result))
           | (s1, Some e) \<Rightarrow> except_branch cfg on_failure name e s1))"

text \<open>The end of task \<open>i\<close>: the \<open>try\<close> statement, then the exit of \<open>async with\<close>, which
  releases the semaphore on every path. The first exception that leaves a task is the
  one \<open>gather\<close> raises.\<close>

definition finish_task ::
  "config \<Rightarrow> (string \<Rightarrow> 'p \<Rightarrow> 'o) \<Rightarrow> (string \<Rightarrow> exn \<Rightarrow> 'o) \<Rightarrow> nat \<Rightarrow> exn + 'p \<Rightarrow>
     'o run_state \<Rightarrow> 'o run_state" where
  "finish_task cfg on_success on_failure i r s =
     (case try_statement cfg on_success on_failure (fst (student_submissions cfg ! i)) r s of
        (s1, t) \<Rightarrow>
          s1\<lparr>tasks := (tasks s1)[i := t],
             sem_value := sem_value s1 + 1,
             first_raised := (case (first_raised s1, t) of
                                (None, Raised e) \<Rightarrow> Some e
                              | (fr, _) \<Rightarrow> fr)\<rparr>)"

text \<open>One step of the event loop. An event that cannot happen in the state gives
  \<open>None\<close>: a task enters the semaphore only when its value is positive, and only a
  request in flight is answered.\<close>

definition step ::
  "config \<Rightarrow> (string \<Rightarrow> 'p \<Rightarrow> 'o) \<Rightarrow> (string \<Rightarrow> exn \<Rightarrow> 'o) \<Rightarrow> 'o run_state \<Rightarrow> 'p event \<Rightarrow>
     'o run_state option" where
  "step cfg on_success on_failure s ev =
     (case ev of
        Acquire i \<Rightarrow>
          if i < length (tasks s) \<and> tasks s ! i = Waiting \<and> 0 < sem_value s
          then Some (s\<lparr>sem_value := sem_value s - 1, tasks := (tasks s)[i := Running]\<rparr>)
          else None
      | Respond i r \<Rightarrow>
          if i < length (tasks s) \<and> tasks s ! i = Running
          then Some (finish_task cfg on_success on_failure i r s)
          else None)"

fun run_events ::
  "config \<Rightarrow> (string \<Rightarrow> 'p \<Rightarrow> 'o) \<Rightarrow> (string \<Rightarrow> exn \<Rightarrow> 'o) \<Rightarrow> 'o run_state \<Rightarrow> 'p event list \<Rightarrow>
     'o run_state option" where
  "run_events cfg on_success on_failure s [] = Some s"
| "run_events cfg on_success on_failure s (ev # evs) =
     (case step cfg on_success on_failure s ev of
        None \<Rightarrow> None
      | Some s1 \<Rightarrow> run_events cfg on_success on_failure s1 evs)"

text \<open>The first three statements and the list of tasks. \<open>asyncio.Semaphore\<close> raises
  \<open>ValueError\<close> for a negative value.\<close>

definition start :: "config \<Rightarrow> exn + 'o run_state" where
  "start cfg =
     (if max_concurrent cfg < 0 then Inl (Exn ''Semaphore initial value must be >= 0'')
      else Inr \<lparr>sem_value = nat (max_concurrent cfg), completed = 0, calls = [],
                tasks = replicate (total cfg) Waiting, first_raised = None\<rparr>)"

text \<open>\<open>await asyncio.gather(*tasks)\<close>: it raises the first exception that leaves a task;
  it returns the list of the tasks' values, in the order of the tasks, once all have
  returned; until then the orchestrator is pending.\<close>

datatype 'o gathered = Pending | Gather_raised exn | Gather_returned "'o list"

definition returned_value :: "'o task \<Rightarrow> 'o option" where
  "returned_value t = (case t of Returned v \<Rightarrow> Some v | _ \<Rightarrow> None)"

definition gather :: "'o run_state \<Rightarrow> 'o gathered" where
  "gather s =
     (case first_raised s of
        Some e \<Rightarrow> Gather_raised e
      | None \<Rightarrow>
          if list_all (\<lambda>t. returned_value t \<noteq> None) (tasks s)
          then Gather_returned (map (\<lambda>t. the (returned_value t)) (tasks s))
          else Pending)"

text \<open>The orchestrator after the events \<open>evs\<close>; \<open>None\<close> when the events cannot happen.\<close>

definition orchestrate ::
  "config \<Rightarrow> (string \<Rightarrow> 'p \<Rightarrow> 'o) \<Rightarrow> (string \<Rightarrow> exn \<Rightarrow> 'o) \<Rightarrow> 'p event list \<Rightarrow> 'o gathered option" where
  "orchestrate cfg on_success on_failure evs =
     (case start cfg of
        Inl e \<Rightarrow> (if evs = [] then Some (Gather_raised e) else None)
      | Inr s0 \<Rightarrow> map_option gather (run_events cfg on_success on_failure s0 evs))"

subsection \<open>The two modes\<close>

text \<open>\<open>evaluate_all_students_async\<close>: a task returns the \<open>EvaluationResult\<close> of its
  student, or the exception alone.\<close>

definition structured_success :: "string \<Rightarrow> result_json \<Rightarrow> exn + evaluation_result" where
  "structured_success name j = Inr (make_evaluation_result name j)"

definition structured_failure :: "string \<Rightarrow> exn \<Rightarrow> exn + evaluation_result" where
  "structured_failure name e = Inl e"

definition evaluate_all_students_async ::
  "config \<Rightarrow> result_json event list \<Rightarrow> (exn + evaluation_result) gathered option" where
  "evaluate_all_students_async cfg evs =
     orchestrate cfg structured_success structured_failure evs"

text \<open>\<open>evaluate_all_students_free_format_async\<close>: a task returns the pair of the
  student's name and the text, or of the name and the exception.\<close>

definition free_format_success :: "string \<Rightarrow> string \<Rightarrow> string \<times> (exn + string)" where
  "free_format_success name content = (name, Inr content)"

definition free_format_failure :: "string \<Rightarrow> exn \<Rightarrow> string \<times> (exn + string)" where
  "free_format_failure name e = (name, Inl e)"

definition evaluate_all_students_free_format_async ::
  "config \<Rightarrow> string event list \<Rightarrow> (string \<times> (exn + string)) gathered option" where
  "evaluate_all_students_free_format_async cfg evs =
     orchestrate cfg free_format_success free_format_failure evs"

subsection \<open>Observations on a state\<close>

text \<open>The number of evaluation calls in flight, and the tasks that have finished.\<close>

definition in_flight :: "'o run_state \<Rightarrow> nat" where
  "in_flight s = length (filter (\<lambda>t. t = Running) (tasks s))"

definition terminal :: "'o task \<Rightarrow> bool" where
  "terminal t = (t \<noteq> Waiting \<and> t \<noteq> Running)"

text \<open>The tasks whose evaluation call has ended, in the order in which they ended, and
  what each call ended with.\<close>

fun finished :: "'p event list \<Rightarrow> nat list" where
  "finished [] = []"
| "finished (Acquire i # evs) = finished evs"
| "finished (Respond i r # evs) = i # finished evs"

fun responses :: "'p event list \<Rightarrow> (nat \<times> (exn + 'p)) list" where
  "responses [] = []"
| "responses (Acquire i # evs) = responses evs"
| "responses (Respond i r # evs) = (i, r) # responses evs"

text \<open>A callback that returns on every invocation; no callback at all counts as one.\<close>

definition callback_returns :: "config \<Rightarrow> bool" where
  "callback_returns cfg =
     (case progress_callback cfg of None \<Rightarrow> True | Some cb \<Rightarrow> (\<forall>c t n. cb c t n = None))"

text \<open>The student of task \<open>i\<close>.\<close>

definition name_of :: "config \<Rightarrow> nat \<Rightarrow> string" where
  "name_of cfg i = fst (student_submissions cfg ! i)"

text \<open>The value a task returns for the end \<open>r\<close> of its evaluation call when the callback
  does not interfere: the success value, or the captured failure.\<close>

definition outcome :: "(string \<Rightarrow> 'p \<Rightarrow> 'o) \<Rightarrow> (string \<Rightarrow> exn \<Rightarrow> 'o) \<Rightarrow> string \<Rightarrow> exn + 'p \<Rightarrow> 'o" where
  "outcome on_success on_failure name r =
     (case r of Inl e \<Rightarrow> on_failure name e | Inr result \<Rightarrow> on_success name result)"

text \<open>The tasks that have finished.\<close>

definition done_set :: "'o run_state \<Rightarrow> nat set" where
  "done_set s = {i. i < length (tasks s) \<and> terminal (tasks s ! i)}"

text \<open>The steps a run still has to take: two for a waiting task, one for a running
  one.\<close>

definition to_do :: "'o run_state \<Rightarrow> nat" where
  "to_do s = 2 * length (filter (\<lambda>t. t = Waiting) (tasks s)) +
     length (filter (\<lambda>t. t = Running) (tasks s))"

section \<open>Properties of the archive extraction\<close>

subsection \<open>One step of the loop\<close>

lemma extract_loop_skip:
  "skipped fi \<Longrightarrow> extract_loop rd st (fi # rest) = extract_loop rd st rest"
  by (auto simp: skipped_def Let_def)

lemma extract_loop_keep:
  "\<not> skipped fi \<Longrightarrow> extract_loop rd st (fi # rest) =
     (case rd (filename fi) of Inl e \<Rightarrow> Inl e
      | Inr c \<Rightarrow> extract_loop rd (dict_add st (derived_name fi) (path_name (filename fi), c)) rest)"
  by (auto simp: skipped_def Let_def derived_name_def dict_add_def split: sum.splits option.splits)

declare extract_loop.simps(2) [simp del]

lemma map_fst_dict_append: "map fst (dict_append d k v) = map fst d"
  by (induction d) (auto simp: dict_append_def)

lemma map_of_dict_append:
  "map_of (dict_append d k v) k' =
     (if k' = k then map_option (\<lambda>fs. fs @ [v]) (map_of d k) else map_of d k')"
  by (induction d) (auto simp: dict_append_def)

lemma distinct_dict_add: "distinct (map fst d) \<Longrightarrow> distinct (map fst (dict_add d k v))"
  by (auto simp: dict_add_def map_fst_dict_append dict_new_key_def dict_contains_def)

lemma map_of_dict_add:
  "map_of (dict_add d k v) k' =
     (if k' = k then Some ((case map_of d k of None \<Rightarrow> [] | Some fs \<Rightarrow> fs) @ [v]) else map_of d k')"
  by (auto simp: dict_add_def map_of_dict_append dict_new_key_def dict_contains_def
      map_of_eq_None_iff[symmetric] map_add_def split: option.splits)

lemma keep_step:
  assumes "\<not> skipped fi" and "extract_loop rd st (fi # rest) = Inr st'"
  obtains c where "rd (filename fi) = Inr c"
    and "extract_loop rd (dict_add st (derived_name fi) (path_name (filename fi), c)) rest = Inr st'"
  using assms by (auto simp: extract_loop_keep split: sum.splits)

subsection \<open>The whole loop\<close>

lemma extract_loop_distinct:
  "extract_loop rd st infos = Inr st' \<Longrightarrow> distinct (map fst st) \<Longrightarrow> distinct (map fst st')"
proof (induction infos arbitrary: st)
  case Nil
  then show ?case by simp
next
  case (Cons fi rest)
  show ?case
  proof (cases "skipped fi")
    case True
    with Cons show ?thesis by (simp add: extract_loop_skip)
  next
    case False
    from False Cons.prems(1) obtain c where
      r: "extract_loop rd (dict_add st (derived_name fi) (path_name (filename fi), c)) rest = Inr st'"
      by (rule keep_step)
    from Cons.IH[OF r] Cons.prems(2) show ?thesis by (simp add: distinct_dict_add)
  qed
qed

lemma files_Nil: "files_in_traversal_order rd [] s = []"
  by (simp add: files_in_traversal_order_def)

lemma files_Cons:
  "files_in_traversal_order rd (fi # rest) s =
     (if \<not> skipped fi \<and> derived_name fi = s
      then (case rd (filename fi) of
              Inr content \<Rightarrow> [(path_name (filename fi), content)] | Inl e \<Rightarrow> [])
      else []) @ files_in_traversal_order rd rest s"
  by (simp add: files_in_traversal_order_def)

lemma files_append:
  "files_in_traversal_order rd (xs @ ys) s =
     files_in_traversal_order rd xs s @ files_in_traversal_order rd ys s"
  by (simp add: files_in_traversal_order_def)

lemma extract_loop_files:
  "extract_loop rd st infos = Inr st' \<Longrightarrow>
   map_of st' s = (case map_of st s of
        Some fs \<Rightarrow> Some (fs @ files_in_traversal_order rd infos s)
      | None \<Rightarrow> if files_in_traversal_order rd infos s = [] then None
                else Some (files_in_traversal_order rd infos s))"
proof (induction infos arbitrary: st)
  case Nil
  then show ?case by (simp add: files_Nil split: option.splits)
next
  case (Cons fi rest)
  show ?case
  proof (cases "skipped fi")
    case True
    then have r: "extract_loop rd st rest = Inr st'"
      using Cons.prems by (simp add: extract_loop_skip)
    have f: "files_in_traversal_order rd (fi # rest) s = files_in_traversal_order rd rest s"
      using True by (simp add: files_Cons)
    show ?thesis unfolding Cons.IH[OF r] f ..
  next
    case False
    from False Cons.prems obtain c where c: "rd (filename fi) = Inr c"
      and r: "extract_loop rd (dict_add st (derived_name fi) (path_name (filename fi), c)) rest = Inr st'"
      by (rule keep_step)
    have f: "files_in_traversal_order rd (fi # rest) s =
       (if derived_name fi = s then [(path_name (filename fi), c)] else []) @
       files_in_traversal_order rd rest s"
      using False c by (simp add: files_Cons)
    show ?thesis
      unfolding Cons.IH[OF r] f by (auto simp: map_of_dict_add split: option.splits)
  qed
qed

lemma extract_loop_filter:
  "extract_loop rd st infos = extract_loop rd st (filter (\<lambda>fi. \<not> skipped fi) infos)"
proof (induction infos arbitrary: st)
  case Nil
  show ?case by simp
next
  case (Cons fi rest)
  show ?case
    by (cases "skipped fi")
      (auto simp: extract_loop_skip extract_loop_keep Cons.IH split: sum.splits)
qed

lemma extract_loop_append:
  "extract_loop rd st (xs @ ys) =
     (case extract_loop rd st xs of Inl e \<Rightarrow> Inl e | Inr st1 \<Rightarrow> extract_loop rd st1 ys)"
proof (induction xs arbitrary: st)
  case Nil
  show ?case by simp
next
  case (Cons fi rest)
  show ?case
    by (cases "skipped fi")
      (auto simp: extract_loop_skip extract_loop_keep Cons.IH split: sum.splits)
qed

lemma extract_loop_reads:
  "extract_loop rd st infos = Inr st' \<Longrightarrow> fi \<in> set infos \<Longrightarrow> \<not> skipped fi \<Longrightarrow>
     \<exists>c. rd (filename fi) = Inr c"
proof (induction infos arbitrary: st)
  case Nil
  then show ?case by simp
next
  case (Cons x rest)
  show ?case
  proof (cases "skipped x")
    case True
    with Cons show ?thesis by (auto simp: extract_loop_skip)
  next
    case False
    from False Cons.prems(1) obtain c where c: "rd (filename x) = Inr c"
      and r: "extract_loop rd (dict_add st (derived_name x) (path_name (filename x), c)) rest = Inr st'"
      by (rule keep_step)
    show ?thesis
    proof (cases "fi = x")
      case True
      with c show ?thesis by blast
    next
      case False
      with Cons.prems(2) have "fi \<in> set rest" by simp
      from Cons.IH[OF r this Cons.prems(3)] show ?thesis .
    qed
  qed
qed

lemma extract_loop_total:
  "\<forall>fi \<in> set infos. \<not> skipped fi \<longrightarrow> (\<exists>c. rd (filename fi) = Inr c) \<Longrightarrow>
     \<exists>st'. extract_loop rd st infos = Inr st'"
proof (induction infos arbitrary: st)
  case Nil
  show ?case by simp
next
  case (Cons x rest)
  have ih: "\<exists>st'. extract_loop rd st0 rest = Inr st'" for st0
    using Cons.prems by (intro Cons.IH) simp
  show ?case
  proof (cases "skipped x")
    case True
    then show ?thesis using ih by (simp add: extract_loop_skip)
  next
    case False
    then obtain c where "rd (filename x) = Inr c" using Cons.prems by auto
    then show ?thesis using False ih by (simp add: extract_loop_keep)
  qed
qed

lemma files_mem:
  "((n, c) \<in> set (files_in_traversal_order rd infos s)) =
     (\<exists>fi \<in> set infos. \<not> skipped fi \<and> derived_name fi = s \<and>
        n = path_name (filename fi) \<and> rd (filename fi) = Inr c)"
proof (induction infos)
  case Nil
  show ?case by (simp add: files_Nil)
next
  case (Cons x rest)
  have a: "((n, c) \<in> set (files_in_traversal_order rd (x # rest) s)) =
      ((\<not> skipped x \<and> derived_name x = s \<and> n = path_name (filename x) \<and> rd (filename x) = Inr c)
       \<or> (n, c) \<in> set (files_in_traversal_order rd rest s))"
  proof (cases "\<not> skipped x \<and> derived_name x = s")
    case True
    then show ?thesis by (cases "rd (filename x)") (auto simp: files_Cons)
  next
    case False
    then have "files_in_traversal_order rd (x # rest) s = files_in_traversal_order rd rest s"
      by (auto simp: files_Cons)
    with False show ?thesis by auto
  qed
  show ?case unfolding a Cons.IH by auto
qed


lemma extract_student_submissions_opened:
  "open_zip zc = Inr zf \<Longrightarrow>
     extract_student_submissions open_zip zc = extract_loop (read zf) [] (infolist zf)"
  by (simp add: extract_student_submissions_def)

lemma extracted_files:
  assumes "extract_student_submissions open_zip zc = Inr students" and "open_zip zc = Inr zf"
  shows "map_of students s =
     (if files_in_traversal_order (read zf) (infolist zf) s = [] then None
      else Some (files_in_traversal_order (read zf) (infolist zf) s))"
proof -
  have "extract_loop (read zf) [] (infolist zf) = Inr students"
    using assms by (simp add: extract_student_submissions_opened)
  from extract_loop_files[OF this, of s] show ?thesis by simp
qed

lemma extracted_distinct:
  assumes "extract_student_submissions open_zip zc = Inr students" and "open_zip zc = Inr zf"
  shows "distinct (map fst students)"
proof -
  have "extract_loop (read zf) [] (infolist zf) = Inr students"
    using assms by (simp add: extract_student_submissions_opened)
  from extract_loop_distinct[OF this] show ?thesis by simp
qed

subsection \<open>Excluded entries\<close>

text \<open>
  Claim C6. \<open>extract_student_submissions\<close> never assigns to a student's file list a
  directory entry, an entry whose path contains \<open>__MACOSX\<close>, an entry whose leaf name
  starts with a dot, or an entry with fewer than two path segments: the loop gives the
  same result on the archive with these entries removed, and every file of every
  student's list is the leaf name and the bytes of an entry that is none of the four
  kinds.
\<close>

theorem skipped_entries_in_no_file_list:
  "extract_loop rd st infos = extract_loop rd st (filter (\<lambda>fi. \<not> skipped fi) infos) \<and>
   (extract_student_submissions open_zip zc = Inr students \<longrightarrow> open_zip zc = Inr zf \<longrightarrow>
    (s, fs) \<in> set students \<longrightarrow> (n, c) \<in> set fs \<longrightarrow>
      (\<exists>fi \<in> set (infolist zf).
         \<not> is_dir fi \<and> \<not> py_in ''__MACOSX'' (filename fi) \<and>
         \<not> startswith (path_name (filename fi)) ''.'' \<and>
         2 \<le> length (path_parts (filename fi)) \<and>
         derived_name fi = s \<and> n = path_name (filename fi) \<and> read zf (filename fi) = Inr c))"
proof (intro conjI impI)
  show "extract_loop rd st infos = extract_loop rd st (filter (\<lambda>fi. \<not> skipped fi) infos)"
    by (rule extract_loop_filter)
next
  assume ex: "extract_student_submissions open_zip zc = Inr students"
    and op: "open_zip zc = Inr zf"
    and sf: "(s, fs) \<in> set students" and nc: "(n, c) \<in> set fs"
  have "distinct (map fst students)" by (rule extracted_distinct[OF ex op])
  with sf have "map_of students s = Some fs" by simp
  with extracted_files[OF ex op, of s]
  have "fs = files_in_traversal_order (read zf) (infolist zf) s"
    by (simp split: if_splits)
  with nc have "(n, c) \<in> set (files_in_traversal_order (read zf) (infolist zf) s)" by simp
  then obtain fi where "fi \<in> set (infolist zf)" "\<not> skipped fi" "derived_name fi = s"
    "n = path_name (filename fi)" "read zf (filename fi) = Inr c"
    unfolding files_mem by blast
  then show "\<exists>fi \<in> set (infolist zf).
         \<not> is_dir fi \<and> \<not> py_in ''__MACOSX'' (filename fi) \<and>
         \<not> startswith (path_name (filename fi)) ''.'' \<and>
         2 \<le> length (path_parts (filename fi)) \<and>
         derived_name fi = s \<and> n = path_name (filename fi) \<and> read zf (filename fi) = Inr c"
    unfolding skipped_def by (intro bexI[of _ fi]) auto
qed

text \<open>An archive with \<open>__MACOSX/._essay.docx\<close>, a root-level \<open>readme.txt\<close> and
  \<open>Alice/report.pdf\<close>; a member's bytes are its own name here.\<close>

theorem skipped_entries_in_no_file_list_witness:
  "extract_loop Inr [] (map ZipInfo [''__MACOSX/._essay.docx'', ''readme.txt'', ''Alice/report.pdf''])
     = Inr [(''Alice'', [(''report.pdf'', ''Alice/report.pdf'')])] \<and>
   extract_loop Inr [] (map ZipInfo [''__MACOSX/._essay.docx'', ''readme.txt'']) = Inr [] \<and>
   (\<exists>fi \<in> set (infolist \<lparr>infolist = map ZipInfo
          [''__MACOSX/._essay.docx'', ''readme.txt'', ''Alice/report.pdf''], read = Inr\<rparr>).
         \<not> is_dir fi \<and> \<not> py_in ''__MACOSX'' (filename fi) \<and>
         \<not> startswith (path_name (filename fi)) ''.'' \<and>
         2 \<le> length (path_parts (filename fi)) \<and>
         derived_name fi = ''Alice'' \<and> ''report.pdf'' = path_name (filename fi) \<and>
         read \<lparr>infolist = map ZipInfo
          [''__MACOSX/._essay.docx'', ''readme.txt'', ''Alice/report.pdf''], read = Inr\<rparr>
           (filename fi) = Inr ''Alice/report.pdf'')"
proof -
  let ?infos = "map ZipInfo [''__MACOSX/._essay.docx'', ''readme.txt'', ''Alice/report.pdf'']"
  let ?zf = "\<lparr>infolist = ?infos, read = Inr\<rparr>"
  let ?students = "[(''Alice'', [(''report.pdf'', ''Alice/report.pdf'')])]"
  have k: "filter (\<lambda>fi. \<not> skipped fi) ?infos = [ZipInfo ''Alice/report.pdf'']"
    by code_simp
  have k2: "filter (\<lambda>fi. \<not> skipped fi) (map ZipInfo [''__MACOSX/._essay.docx'', ''readme.txt'']) = []"
    by code_simp
  have e1: "extract_loop Inr [] [ZipInfo ''Alice/report.pdf''] = Inr ?students"
    by code_simp
  note t = skipped_entries_in_no_file_list
  have a: "extract_loop Inr [] ?infos = Inr ?students"
    using t[of Inr "[]" ?infos] unfolding k e1 by (rule conjunct1)
  have b: "extract_loop Inr [] (map ZipInfo [''__MACOSX/._essay.docx'', ''readme.txt'']) = Inr []"
    using t[of Inr "[]" "map ZipInfo [''__MACOSX/._essay.docx'', ''readme.txt'']"]
    unfolding k2 by simp
  have h1: "extract_student_submissions (\<lambda>b. Inr ?zf) [] = Inr ?students"
    using a by (simp add: extract_student_submissions_def)
  have h3: "(''Alice'', [(''report.pdf'', ''Alice/report.pdf'')]) \<in> set ?students" by simp
  have h4: "(''report.pdf'', ''Alice/report.pdf'') \<in> set [(''report.pdf'', ''Alice/report.pdf'')]"
    by simp
  note c = t[of Inr "[]" "[]" "\<lambda>b. Inr ?zf" "[]" ?students ?zf
        "''Alice''" "[(''report.pdf'', ''Alice/report.pdf'')]" "''report.pdf''" "''Alice/report.pdf''",
        THEN conjunct2, rule_format, OF h1 refl h3 h4]
  from a b c show ?thesis by (intro conjI)
qed


subsection \<open>Accumulation under one name\<close>

lemma extract_loop_extends:
  assumes "extract_loop rd st (infos @ later) = Inr st2"
  shows "\<exists>st1. extract_loop rd st infos = Inr st1 \<and>
     (\<forall>s fs. map_of st1 s = Some fs \<longrightarrow>
        map_of st2 s = Some (fs @ files_in_traversal_order rd later s))"
proof -
  from assms obtain st1 where 1: "extract_loop rd st infos = Inr st1"
    and 2: "extract_loop rd st1 later = Inr st2"
    by (auto simp: extract_loop_append split: sum.splits)
  have "map_of st2 s = Some (fs @ files_in_traversal_order rd later s)"
    if "map_of st1 s = Some fs" for s fs
    using extract_loop_files[OF 2, of s] that by simp
  with 1 show ?thesis by blast
qed

text \<open>
  Claim C9. When several entries derive to the same student name, all their files are
  under that one name, in archive traversal order: the dictionary has one key per name,
  and the list under a name is the list of the entries that derive to it, whatever
  their raw folder names, in the order of the archive. A later entry appends: what the
  loop has stored under a name after a part of the archive is a prefix of what it has
  stored there at the end.
\<close>

theorem files_accumulate_in_traversal_order:
  "(extract_student_submissions open_zip zc = Inr students \<longrightarrow> open_zip zc = Inr zf \<longrightarrow>
      distinct (map fst students) \<and>
      map_of students s =
        (if files_in_traversal_order (read zf) (infolist zf) s = [] then None
         else Some (files_in_traversal_order (read zf) (infolist zf) s))) \<and>
   (extract_loop rd st (infos @ later) = Inr st2 \<longrightarrow>
      (\<exists>st1. extract_loop rd st infos = Inr st1 \<and>
         (\<forall>s fs. map_of st1 s = Some fs \<longrightarrow>
            map_of st2 s = Some (fs @ files_in_traversal_order rd later s))))"
  using extracted_distinct extracted_files extract_loop_extends by blast

text \<open>Two submission folders of Jane Doe and one of Bob between them.\<close>

theorem files_accumulate_in_traversal_order_witness:
  "extract_student_submissions
     (\<lambda>b. Inr \<lparr>infolist = map ZipInfo
        [''A1/Jane Doe_7_assignsubmission_file/essay.docx'',
         ''A1/Bob_8_assignsubmission_file/essay.docx'',
         ''A1/Jane Doe_7_assignsubmission_onlinetext/onlinetext.html''], read = Inr\<rparr>) []
     = Inr [(''Jane Doe'',
              [(''essay.docx'', ''A1/Jane Doe_7_assignsubmission_file/essay.docx''),
               (''onlinetext.html'', ''A1/Jane Doe_7_assignsubmission_onlinetext/onlinetext.html'')]),
            (''Bob'', [(''essay.docx'', ''A1/Bob_8_assignsubmission_file/essay.docx'')])] \<and>
   map_of [(''Jane Doe'',
              [(''essay.docx'', ''A1/Jane Doe_7_assignsubmission_file/essay.docx''),
               (''onlinetext.html'', ''A1/Jane Doe_7_assignsubmission_onlinetext/onlinetext.html'')]),
            (''Bob'', [(''essay.docx'', ''A1/Bob_8_assignsubmission_file/essay.docx'')])] ''Jane Doe''
     = Some (files_in_traversal_order Inr (map ZipInfo
        [''A1/Jane Doe_7_assignsubmission_file/essay.docx'',
         ''A1/Bob_8_assignsubmission_file/essay.docx'',
         ''A1/Jane Doe_7_assignsubmission_onlinetext/onlinetext.html'']) ''Jane Doe'') \<and>
   (\<exists>st1. extract_loop Inr [] (map ZipInfo
        [''A1/Jane Doe_7_assignsubmission_file/essay.docx'',
         ''A1/Bob_8_assignsubmission_file/essay.docx'']) = Inr st1 \<and>
      map_of st1 ''Jane Doe'' =
        Some [(''essay.docx'', ''A1/Jane Doe_7_assignsubmission_file/essay.docx'')])"
proof -
  let ?a = "ZipInfo ''A1/Jane Doe_7_assignsubmission_file/essay.docx''"
  let ?b = "ZipInfo ''A1/Bob_8_assignsubmission_file/essay.docx''"
  let ?c = "ZipInfo ''A1/Jane Doe_7_assignsubmission_onlinetext/onlinetext.html''"
  let ?zf = "\<lparr>infolist = [?a, ?b, ?c], read = Inr\<rparr>"
  let ?students = "[(''Jane Doe'',
              [(''essay.docx'', ''A1/Jane Doe_7_assignsubmission_file/essay.docx''),
               (''onlinetext.html'', ''A1/Jane Doe_7_assignsubmission_onlinetext/onlinetext.html'')]),
            (''Bob'', [(''essay.docx'', ''A1/Bob_8_assignsubmission_file/essay.docx'')])]"
  note t = files_accumulate_in_traversal_order
  have l: "extract_loop Inr [] [?a, ?b, ?c] = Inr ?students"
    by code_simp
  have h1: "extract_student_submissions (\<lambda>b. Inr ?zf) [] = Inr ?students"
    using l by (simp add: extract_student_submissions_def)
  have f: "files_in_traversal_order Inr [?a, ?b, ?c] ''Jane Doe'' \<noteq> []"
    by code_simp
  have m: "map_of ?students ''Jane Doe'' =
      Some (files_in_traversal_order Inr [?a, ?b, ?c] ''Jane Doe'')"
    using t[of "\<lambda>b. Inr ?zf" "[]" ?students ?zf "''Jane Doe''",
        THEN conjunct1, rule_format, OF h1 refl, THEN conjunct2] f
    by simp
  have l2: "extract_loop Inr [] ([?a, ?b] @ [?c]) = Inr ?students"
    using l by simp
  from t[of _ _ _ _ _ Inr "[]" "[?a, ?b]" "[?c]" ?students,
      THEN conjunct2, rule_format, OF l2]
  obtain st1 where s1: "extract_loop Inr [] [?a, ?b] = Inr st1" by blast
  have "extract_loop Inr [] [?a, ?b] =
      Inr [(''Jane Doe'', [(''essay.docx'', ''A1/Jane Doe_7_assignsubmission_file/essay.docx'')]),
           (''Bob'', [(''essay.docx'', ''A1/Bob_8_assignsubmission_file/essay.docx'')])]"
    by code_simp
  with s1 have p: "map_of st1 ''Jane Doe'' =
      Some [(''essay.docx'', ''A1/Jane Doe_7_assignsubmission_file/essay.docx'')]"
    by auto
  from h1 m s1 p show ?thesis by simp
qed


subsection \<open>Invalid archives and empty results\<close>

lemma empty_iff_all_skipped:
  assumes ex: "extract_student_submissions open_zip zc = Inr students"
    and op: "open_zip zc = Inr zf"
  shows "(students = []) = list_all skipped (infolist zf)"
proof
  assume "students = []"
  show "list_all skipped (infolist zf)"
  proof (rule ccontr)
    assume "\<not> list_all skipped (infolist zf)"
    then obtain fi where fi: "fi \<in> set (infolist zf)" "\<not> skipped fi"
      by (auto simp: list_all_iff)
    have l: "extract_loop (read zf) [] (infolist zf) = Inr students"
      using ex op by (simp add: extract_student_submissions_opened)
    from extract_loop_reads[OF l fi] obtain c where "read zf (filename fi) = Inr c" ..
    with fi have "(path_name (filename fi), c) \<in>
        set (files_in_traversal_order (read zf) (infolist zf) (derived_name fi))"
      unfolding files_mem by blast
    then have "files_in_traversal_order (read zf) (infolist zf) (derived_name fi) \<noteq> []"
      by auto
    with extracted_files[OF ex op, of "derived_name fi"] \<open>students = []\<close>
    show False by simp
  qed
next
  assume "list_all skipped (infolist zf)"
  then have "filter (\<lambda>fi. \<not> skipped fi) (infolist zf) = []"
    by (auto simp: list_all_iff filter_empty_conv)
  then have "extract_loop (read zf) [] (infolist zf) = Inr []"
    using extract_loop_filter[of "read zf" "[]" "infolist zf"] by simp
  with ex op show "students = []"
    by (simp add: extract_student_submissions_opened)
qed

lemma all_skipped_empty:
  assumes "open_zip zc = Inr zf" and "list_all skipped (infolist zf)"
  shows "extract_student_submissions open_zip zc = Inr []"
proof -
  from assms(2) have "filter (\<lambda>fi. \<not> skipped fi) (infolist zf) = []"
    by (auto simp: list_all_iff filter_empty_conv)
  then have "extract_loop (read zf) [] (infolist zf) = Inr []"
    using extract_loop_filter[of "read zf" "[]" "infolist zf"] by simp
  with assms(1) show ?thesis by (simp add: extract_student_submissions_opened)
qed

text \<open>
  Claim C8. When the bytes are no valid archive (opening raises \<open>BadZipFile\<close>, the
  archive-format error of the code), \<open>extract_student_submissions\<close> raises it and the
  script run ends with it, whatever would have followed. A valid archive yields zero
  students exactly when every entry is one of the skipped kinds; extraction then returns
  the empty dictionary without an error, and the caller stops with its message before
  the rest of the script, which holds every evaluation call, is run.
\<close>

theorem invalid_archive_fatal_empty_result_rejected:
  "(open_zip zc = Inl BadZipFile \<longrightarrow>
      extract_student_submissions open_zip zc = Inl BadZipFile \<and>
      main_extraction open_zip zc rest_of_script = Uncaught BadZipFile) \<and>
   (open_zip zc = Inr zf \<longrightarrow> list_all skipped (infolist zf) \<longrightarrow>
      extract_student_submissions open_zip zc = Inr [] \<and>
      main_extraction open_zip zc rest_of_script = Stopped_no_student_found) \<and>
   (open_zip zc = Inr zf \<longrightarrow> extract_student_submissions open_zip zc = Inr students \<longrightarrow>
      (students = []) = list_all skipped (infolist zf))"
proof (intro conjI impI)
  assume "open_zip zc = Inl BadZipFile"
  then show "extract_student_submissions open_zip zc = Inl BadZipFile"
    and "main_extraction open_zip zc rest_of_script = Uncaught BadZipFile"
    by (simp_all add: extract_student_submissions_def main_extraction_def)
next
  assume a: "open_zip zc = Inr zf" "list_all skipped (infolist zf)"
  from all_skipped_empty[of open_zip zc zf, OF a]
  show "extract_student_submissions open_zip zc = Inr []"
    and "main_extraction open_zip zc rest_of_script = Stopped_no_student_found"
    by (simp_all add: main_extraction_def)
next
  assume "open_zip zc = Inr zf" "extract_student_submissions open_zip zc = Inr students"
  then show "(students = []) = list_all skipped (infolist zf)"
    using empty_iff_all_skipped by blast
qed

text \<open>Bytes that are no archive, and an archive that holds a root-level file only.\<close>

theorem invalid_archive_fatal_empty_result_rejected_witness:
  "extract_student_submissions (\<lambda>b. Inl BadZipFile) ''not a zip'' = Inl BadZipFile \<and>
   main_extraction (\<lambda>b. Inl BadZipFile) ''not a zip'' (\<lambda>students. length students)
     = Uncaught BadZipFile \<and>
   list_all skipped (infolist \<lparr>infolist = [ZipInfo ''readme.txt''], read = Inr\<rparr>) \<and>
   extract_student_submissions
     (\<lambda>b. Inr \<lparr>infolist = [ZipInfo ''readme.txt''], read = Inr\<rparr>) ''PK'' = Inr [] \<and>
   main_extraction
     (\<lambda>b. Inr \<lparr>infolist = [ZipInfo ''readme.txt''], read = Inr\<rparr>) ''PK''
     (\<lambda>students. length students) = Stopped_no_student_found"
proof -
  let ?zf = "\<lparr>infolist = [ZipInfo ''readme.txt''], read = Inr\<rparr>"
  note t = invalid_archive_fatal_empty_result_rejected
  have sk: "list_all skipped (infolist ?zf)" by code_simp
  note a = t[of "\<lambda>b. Inl BadZipFile" "''not a zip''" "\<lambda>students. length students",
      THEN conjunct1, rule_format, OF refl]
  note b = t[of "\<lambda>b. Inr ?zf" "''PK''" "\<lambda>students. length students" ?zf,
      THEN conjunct2, THEN conjunct1, rule_format, OF refl sk]
  from a b sk show ?thesis by (intro conjI) blast+
qed


subsection \<open>The folder pattern\<close>

lemma not_digit_underscore: "\<not> is_digit (CHR ''_'')"
  by (simp add: is_digit_def)

lemma startswith_iff: "startswith s p = (\<exists>rest. s = p @ rest)"
  unfolding startswith_def
  by (metis append_eq_conv_conj append_take_drop_id)

lemma run_then_other:
  "list_all P ds \<Longrightarrow> \<not> P x \<Longrightarrow>
     takeWhile P (ds @ x # r) = ds \<and> dropWhile P (ds @ x # r) = x # r"
  by (induction ds) auto

lemma moodle_tail_Cons:
  "moodle_tail (c # r) = (c = CHR ''_'' \<and> takeWhile is_digit r \<noteq> [] \<and>
     startswith (dropWhile is_digit r) ''_assignsubmission_'')"
  by (simp add: moodle_tail_def)

lemma moodle_tail_iff:
  "moodle_tail s = (\<exists>ds rest. ds \<noteq> [] \<and> list_all is_digit ds \<and>
      s = CHR ''_'' # ds @ ''_assignsubmission_'' @ rest)"
proof
  assume "moodle_tail s"
  then obtain r where s: "s = CHR ''_'' # r" and d: "takeWhile is_digit r \<noteq> []"
    and m: "startswith (dropWhile is_digit r) ''_assignsubmission_''"
    by (auto simp: moodle_tail_def split: list.splits)
  from m obtain rest where "dropWhile is_digit r = ''_assignsubmission_'' @ rest"
    unfolding startswith_iff by blast
  then have "r = takeWhile is_digit r @ ''_assignsubmission_'' @ rest"
    by (metis takeWhile_dropWhile_id)
  moreover have "list_all is_digit (takeWhile is_digit r)"
    by (simp add: list_all_iff) (meson set_takeWhileD)
  ultimately show "\<exists>ds rest. ds \<noteq> [] \<and> list_all is_digit ds \<and>
      s = CHR ''_'' # ds @ ''_assignsubmission_'' @ rest"
    using s d by blast
next
  assume "\<exists>ds rest. ds \<noteq> [] \<and> list_all is_digit ds \<and>
      s = CHR ''_'' # ds @ ''_assignsubmission_'' @ rest"
  then obtain ds rest where ds: "ds \<noteq> []" "list_all is_digit ds"
    and s: "s = CHR ''_'' # ds @ ''_assignsubmission_'' @ rest" by blast
  have e: "''_assignsubmission_'' @ rest = CHR ''_'' # ''assignsubmission_'' @ rest"
    by simp
  have t: "takeWhile is_digit (ds @ ''_assignsubmission_'' @ rest) = ds"
    unfolding e using run_then_other[OF ds(2) not_digit_underscore] by blast
  have d: "dropWhile is_digit (ds @ ''_assignsubmission_'' @ rest) = ''_assignsubmission_'' @ rest"
    unfolding e using run_then_other[OF ds(2) not_digit_underscore] by blast
  show "moodle_tail s"
    unfolding s moodle_tail_Cons t d using ds(1) by (simp add: startswith_def)
qed

lemma match_group_iff:
  "(match_group acc s = Some g) =
     (\<exists>pre rest. g = acc @ pre \<and> s = pre @ rest \<and> LF \<notin> set pre \<and> moodle_tail rest \<and>
        (\<forall>k < length pre. \<not> moodle_tail (drop k s)))"
proof (induction s arbitrary: acc)
  case Nil
  show ?case by (auto simp: moodle_tail_def)
next
  case (Cons c cs)
  show ?case
  proof (cases "moodle_tail (c # cs)")
    case True
    have "(\<exists>pre rest. g = acc @ pre \<and> c # cs = pre @ rest \<and> LF \<notin> set pre \<and> moodle_tail rest \<and>
        (\<forall>k < length pre. \<not> moodle_tail (drop k (c # cs)))) = (g = acc)"
    proof
      assume "\<exists>pre rest. g = acc @ pre \<and> c # cs = pre @ rest \<and> LF \<notin> set pre \<and> moodle_tail rest \<and>
        (\<forall>k < length pre. \<not> moodle_tail (drop k (c # cs)))"
      then obtain pre where p: "g = acc @ pre"
        "\<forall>k < length pre. \<not> moodle_tail (drop k (c # cs))" by blast
      have "pre = []"
      proof (rule ccontr)
        assume "pre \<noteq> []"
        then have "0 < length pre" by simp
        with p(2) have "\<not> moodle_tail (drop 0 (c # cs))" by blast
        with True show False by simp
      qed
      with p show "g = acc" by simp
    next
      assume "g = acc"
      then show "\<exists>pre rest. g = acc @ pre \<and> c # cs = pre @ rest \<and> LF \<notin> set pre \<and> moodle_tail rest \<and>
        (\<forall>k < length pre. \<not> moodle_tail (drop k (c # cs)))"
        using True by (intro exI[of _ "[]"] exI[of _ "c # cs"]) simp
    qed
    with True show ?thesis by auto
  next
    case False
    have r: "(\<exists>pre rest. g = acc @ pre \<and> c # cs = pre @ rest \<and> LF \<notin> set pre \<and> moodle_tail rest \<and>
        (\<forall>k < length pre. \<not> moodle_tail (drop k (c # cs)))) =
       (c \<noteq> LF \<and> (\<exists>pre' rest. g = (acc @ [c]) @ pre' \<and> cs = pre' @ rest \<and> LF \<notin> set pre' \<and>
          moodle_tail rest \<and> (\<forall>k < length pre'. \<not> moodle_tail (drop k cs))))"
    proof
      assume "\<exists>pre rest. g = acc @ pre \<and> c # cs = pre @ rest \<and> LF \<notin> set pre \<and> moodle_tail rest \<and>
        (\<forall>k < length pre. \<not> moodle_tail (drop k (c # cs)))"
      then obtain pre rest where p: "g = acc @ pre" "c # cs = pre @ rest" "LF \<notin> set pre"
        "moodle_tail rest" "\<forall>k < length pre. \<not> moodle_tail (drop k (c # cs))" by blast
      from p(2,4) False have "pre \<noteq> []" by auto
      with p(2) obtain pre' where pre: "pre = c # pre'" "cs = pre' @ rest"
        by (cases pre) auto
      have "\<not> moodle_tail (drop k cs)" if "k < length pre'" for k
        using p(5)[rule_format, of "Suc k"] that pre by simp
      with p pre show "c \<noteq> LF \<and> (\<exists>pre' rest. g = (acc @ [c]) @ pre' \<and> cs = pre' @ rest \<and>
          LF \<notin> set pre' \<and> moodle_tail rest \<and> (\<forall>k < length pre'. \<not> moodle_tail (drop k cs)))"
        by auto
    next
      assume "c \<noteq> LF \<and> (\<exists>pre' rest. g = (acc @ [c]) @ pre' \<and> cs = pre' @ rest \<and> LF \<notin> set pre' \<and>
          moodle_tail rest \<and> (\<forall>k < length pre'. \<not> moodle_tail (drop k cs)))"
      then obtain pre' rest where p: "c \<noteq> LF" "g = (acc @ [c]) @ pre'" "cs = pre' @ rest"
        "LF \<notin> set pre'" "moodle_tail rest" "\<forall>k < length pre'. \<not> moodle_tail (drop k cs)"
        by blast
      have "\<not> moodle_tail (drop k (c # cs))" if "k < length (c # pre')" for k
      proof (cases k)
        case 0
        with False show ?thesis by simp
      next
        case (Suc j)
        with that p(6) show ?thesis by simp
      qed
      with p show "\<exists>pre rest. g = acc @ pre \<and> c # cs = pre @ rest \<and> LF \<notin> set pre \<and>
          moodle_tail rest \<and> (\<forall>k < length pre. \<not> moodle_tail (drop k (c # cs)))"
        by (intro exI[of _ "c # pre'"] exI[of _ rest]) auto
    qed
    show ?thesis
      unfolding r using False Cons.IH[of "acc @ [c]"] by auto
  qed
qed


lemma re_match_moodle_iff:
  "(re_match_moodle p = Some g) =
     (g \<noteq> [] \<and> LF \<notin> set g \<and> (\<exists>rest. p = g @ rest \<and> moodle_tail rest) \<and>
      (\<forall>k. 0 < k \<and> k < length g \<longrightarrow> \<not> moodle_tail (drop k p)))"
proof (cases p)
  case Nil
  then show ?thesis by (auto simp: re_match_moodle_def)
next
  case (Cons c cs)
  have 1: "(re_match_moodle p = Some g) =
      (c \<noteq> LF \<and> (\<exists>pre rest. g = [c] @ pre \<and> cs = pre @ rest \<and> LF \<notin> set pre \<and>
         moodle_tail rest \<and> (\<forall>k < length pre. \<not> moodle_tail (drop k cs))))"
    unfolding Cons re_match_moodle_def by (simp add: match_group_iff)
  show ?thesis unfolding 1
  proof
    assume "c \<noteq> LF \<and> (\<exists>pre rest. g = [c] @ pre \<and> cs = pre @ rest \<and> LF \<notin> set pre \<and>
         moodle_tail rest \<and> (\<forall>k < length pre. \<not> moodle_tail (drop k cs)))"
    then obtain pre rest where a: "c \<noteq> LF" "g = c # pre" "cs = pre @ rest" "LF \<notin> set pre"
      "moodle_tail rest" "\<forall>k < length pre. \<not> moodle_tail (drop k cs)" by auto
    have "\<not> moodle_tail (drop k p)" if "0 < k \<and> k < length g" for k
    proof -
      from that obtain j where "k = Suc j" by (cases k) auto
      with that a(2,6) show ?thesis unfolding Cons by simp
    qed
    with a show "g \<noteq> [] \<and> LF \<notin> set g \<and> (\<exists>rest. p = g @ rest \<and> moodle_tail rest) \<and>
      (\<forall>k. 0 < k \<and> k < length g \<longrightarrow> \<not> moodle_tail (drop k p))"
      unfolding Cons by auto
  next
    assume "g \<noteq> [] \<and> LF \<notin> set g \<and> (\<exists>rest. p = g @ rest \<and> moodle_tail rest) \<and>
      (\<forall>k. 0 < k \<and> k < length g \<longrightarrow> \<not> moodle_tail (drop k p))"
    then obtain rest where a: "g \<noteq> []" "LF \<notin> set g" "p = g @ rest" "moodle_tail rest"
      "\<forall>k. 0 < k \<and> k < length g \<longrightarrow> \<not> moodle_tail (drop k p)" by blast
    from a(1,3) obtain pre where g: "g = c # pre" and cs: "cs = pre @ rest"
      unfolding Cons by (cases g) auto
    have "\<not> moodle_tail (drop k cs)" if "k < length pre" for k
      using a(5)[rule_format, of "Suc k"] that g unfolding Cons by simp
    with a g cs show "c \<noteq> LF \<and> (\<exists>pre rest. g = [c] @ pre \<and> cs = pre @ rest \<and> LF \<notin> set pre \<and>
         moodle_tail rest \<and> (\<forall>k < length pre. \<not> moodle_tail (drop k cs)))"
      by auto
  qed
qed

lemma moodle_scan_first:
  "list_all no_moodle_name before \<Longrightarrow>
     moodle_scan (before @ rest) = moodle_scan rest"
  by (induction before) (auto simp: no_moodle_name_def)

lemma moodle_scan_None: "list_all no_moodle_name parts \<Longrightarrow> moodle_scan parts = None"
  using moodle_scan_first[of parts "[]"] by simp

lemma moodle_scan_hit:
  "re_match_moodle p = Some g \<Longrightarrow> strip g \<noteq> [] \<Longrightarrow> moodle_scan (p # rest) = Some (strip g)"
  by (simp add: extract_student_name_from_moodle_folder_def)

lemma moodle_scan_cases:
  "(\<exists>before p after g. parts = before @ p # after \<and> list_all no_moodle_name before \<and>
      re_match_moodle p = Some g \<and> strip g \<noteq> [] \<and> moodle_scan parts = Some (strip g)) \<or>
   (list_all no_moodle_name parts \<and> moodle_scan parts = None)"
proof (induction parts)
  case Nil
  show ?case by simp
next
  case (Cons x xs)
  show ?case
  proof (cases "no_moodle_name x")
    case True
    from Cons show ?thesis
    proof
      assume "\<exists>before p after g. xs = before @ p # after \<and> list_all no_moodle_name before \<and>
        re_match_moodle p = Some g \<and> strip g \<noteq> [] \<and> moodle_scan xs = Some (strip g)"
      then obtain before p after g where a: "xs = before @ p # after"
        "list_all no_moodle_name before" "re_match_moodle p = Some g" "strip g \<noteq> []"
        "moodle_scan xs = Some (strip g)" by blast
      have "x # xs = (x # before) @ p # after" using a(1) by simp
      moreover have "list_all no_moodle_name (x # before)" using True a(2) by simp
      moreover have "moodle_scan (x # xs) = Some (strip g)"
        using True a(5) by (auto simp: no_moodle_name_def)
      ultimately show ?thesis using a(3,4) by blast
    next
      assume b: "list_all no_moodle_name xs \<and> moodle_scan xs = None"
      then have "moodle_scan (x # xs) = None"
        using True unfolding no_moodle_name_def by auto
      moreover have "list_all no_moodle_name (x # xs)" using True b by simp
      ultimately show ?thesis by blast
    qed
  next
    case False
    then obtain g where g: "re_match_moodle x = Some g" "strip g \<noteq> []"
      by (auto simp: no_moodle_name_def extract_student_name_from_moodle_folder_def
          split: option.splits)
    have "x # xs = [] @ x # xs" by simp
    moreover have "list_all no_moodle_name []" by simp
    ultimately show ?thesis using g moodle_scan_hit[OF g] by blast
  qed
qed

subsection \<open>The derived student name\<close>

lemma derived_name_moodle:
  assumes "butlast (path_parts (filename fi)) = before @ p # after"
    and "list_all no_moodle_name before"
    and "re_match_moodle p = Some g" and "strip g \<noteq> []"
  shows "derived_name fi = strip g"
proof -
  have "moodle_scan (butlast (path_parts (filename fi))) = moodle_scan (p # after)"
    unfolding assms(1) using assms(2) by (rule moodle_scan_first)
  also have "\<dots> = Some (strip g)" using assms(3,4) by (rule moodle_scan_hit)
  finally show ?thesis by (simp add: derived_name_def)
qed

lemma derived_name_fallback:
  assumes "list_all no_moodle_name (butlast (path_parts (filename fi)))"
  shows "derived_name fi = path_parts (filename fi) ! 0"
  using moodle_scan_None[OF assms] by (simp add: derived_name_def)

lemma filed_under_derived_name:
  assumes ex: "extract_student_submissions open_zip zc = Inr students"
    and op: "open_zip zc = Inr zf"
    and fi: "fi \<in> set (infolist zf)" "\<not> skipped fi"
  shows "\<exists>fs c. map_of students (derived_name fi) = Some fs \<and>
     read zf (filename fi) = Inr c \<and> (path_name (filename fi), c) \<in> set fs"
proof -
  have l: "extract_loop (read zf) [] (infolist zf) = Inr students"
    using ex op by (simp add: extract_student_submissions_opened)
  from extract_loop_reads[OF l fi] obtain c where c: "read zf (filename fi) = Inr c" ..
  with fi have m: "(path_name (filename fi), c) \<in>
      set (files_in_traversal_order (read zf) (infolist zf) (derived_name fi))"
    unfolding files_mem by blast
  then have "files_in_traversal_order (read zf) (infolist zf) (derived_name fi) \<noteq> []"
    by auto
  with extracted_files[OF ex op, of "derived_name fi"]
  have "map_of students (derived_name fi) =
      Some (files_in_traversal_order (read zf) (infolist zf) (derived_name fi))"
    by simp
  with c m show ?thesis by blast
qed

text \<open>
  Claim C3, as the code has it. An entry that is not skipped is filed under its derived
  student name. The folder segments (the path segments without the filename) are walked
  from the shallowest down; a segment gives a name when the pattern
  \<open><name>_<digits>_assignsubmission_\<close> matches it and the captured name is not empty once
  trimmed. The first segment that gives a name wins, and the trimmed captured name is
  the student name; a segment whose captured name is blank is passed over like a
  segment that does not match. When no segment gives a name, the first path segment is
  the student name. One of the two cases always applies. The pattern matches a segment
  with captured name \<open>h\<close> exactly when \<open>h\<close> is a non-empty prefix without a line feed,
  followed by an underscore, one or more digits and \<open>_assignsubmission_\<close>, and no shorter
  non-empty prefix is followed so.
\<close>

theorem student_name_derivation:
  "(extract_student_submissions open_zip zc = Inr students \<longrightarrow> open_zip zc = Inr zf \<longrightarrow>
    fi \<in> set (infolist zf) \<longrightarrow> \<not> skipped fi \<longrightarrow>
      (\<exists>fs c. map_of students (derived_name fi) = Some fs \<and>
         read zf (filename fi) = Inr c \<and> (path_name (filename fi), c) \<in> set fs)) \<and>
   (butlast (path_parts (filename fi)) = before @ p # after \<longrightarrow>
    list_all no_moodle_name before \<longrightarrow> re_match_moodle p = Some g \<longrightarrow> strip g \<noteq> [] \<longrightarrow>
      derived_name fi = strip g) \<and>
   (list_all no_moodle_name (butlast (path_parts (filename fi))) \<longrightarrow>
      derived_name fi = path_parts (filename fi) ! 0) \<and>
   ((\<exists>before p after g. butlast (path_parts (filename fi)) = before @ p # after \<and>
        list_all no_moodle_name before \<and> re_match_moodle p = Some g \<and> strip g \<noteq> []) \<or>
    list_all no_moodle_name (butlast (path_parts (filename fi)))) \<and>
   (no_moodle_name q =
      (re_match_moodle q = None \<or> (\<exists>h. re_match_moodle q = Some h \<and> strip h = []))) \<and>
   ((re_match_moodle q = Some h) =
      (h \<noteq> [] \<and> LF \<notin> set h \<and>
       (\<exists>ds tl. ds \<noteq> [] \<and> list_all is_digit ds \<and>
          q = h @ CHR ''_'' # ds @ ''_assignsubmission_'' @ tl) \<and>
       (\<forall>k. 0 < k \<and> k < length h \<longrightarrow> \<not> moodle_tail (drop k q))))"
proof (intro conjI impI)
  assume "extract_student_submissions open_zip zc = Inr students" "open_zip zc = Inr zf"
    "fi \<in> set (infolist zf)" "\<not> skipped fi"
  then show "\<exists>fs c. map_of students (derived_name fi) = Some fs \<and>
         read zf (filename fi) = Inr c \<and> (path_name (filename fi), c) \<in> set fs"
    by (rule filed_under_derived_name)
next
  assume "butlast (path_parts (filename fi)) = before @ p # after"
    "list_all no_moodle_name before" "re_match_moodle p = Some g" "strip g \<noteq> []"
  then show "derived_name fi = strip g" by (rule derived_name_moodle)
next
  assume "list_all no_moodle_name (butlast (path_parts (filename fi)))"
  then show "derived_name fi = path_parts (filename fi) ! 0" by (rule derived_name_fallback)
next
  show "(\<exists>before p after g. butlast (path_parts (filename fi)) = before @ p # after \<and>
        list_all no_moodle_name before \<and> re_match_moodle p = Some g \<and> strip g \<noteq> []) \<or>
    list_all no_moodle_name (butlast (path_parts (filename fi)))"
    using moodle_scan_cases[of "butlast (path_parts (filename fi))"] by blast
next
  show "no_moodle_name q =
      (re_match_moodle q = None \<or> (\<exists>h. re_match_moodle q = Some h \<and> strip h = []))"
    by (auto simp: no_moodle_name_def extract_student_name_from_moodle_folder_def
        split: option.splits)
next
  have "(\<exists>rest. q = h @ rest \<and> moodle_tail rest) =
      (\<exists>ds tl. ds \<noteq> [] \<and> list_all is_digit ds \<and>
          q = h @ CHR ''_'' # ds @ ''_assignsubmission_'' @ tl)"
    unfolding moodle_tail_iff by blast
  then show "(re_match_moodle q = Some h) =
      (h \<noteq> [] \<and> LF \<notin> set h \<and>
       (\<exists>ds tl. ds \<noteq> [] \<and> list_all is_digit ds \<and>
          q = h @ CHR ''_'' # ds @ ''_assignsubmission_'' @ tl) \<and>
       (\<forall>k. 0 < k \<and> k < length h \<longrightarrow> \<not> moodle_tail (drop k q)))"
    unfolding re_match_moodle_iff by simp
qed


text \<open>The two layouts of the specification: \<open>Alice/report.pdf\<close> and
  \<open>Assignment1/Jane Doe_998877_assignsubmission_file/essay.docx\<close>.\<close>

theorem student_name_derivation_witness:
  "derived_name (ZipInfo ''Assignment1/Jane Doe_998877_assignsubmission_file/essay.docx'')
     = ''Jane Doe'' \<and>
   derived_name (ZipInfo ''Alice/report.pdf'') = ''Alice'' \<and>
   (\<exists>fs c. map_of [(''Alice'', [(''report.pdf'', ''Alice/report.pdf'')])]
              (derived_name (ZipInfo ''Alice/report.pdf'')) = Some fs \<and>
      read \<lparr>infolist = [ZipInfo ''Alice/report.pdf''], read = Inr\<rparr>
        (filename (ZipInfo ''Alice/report.pdf'')) = Inr c \<and>
      (path_name (filename (ZipInfo ''Alice/report.pdf'')), c) \<in> set fs) \<and>
   re_match_moodle ''Jane Doe_998877_assignsubmission_file'' = Some ''Jane Doe''"
proof -
  let ?j = "ZipInfo ''Assignment1/Jane Doe_998877_assignsubmission_file/essay.docx''"
  let ?a = "ZipInfo ''Alice/report.pdf''"
  let ?zf = "\<lparr>infolist = [?a], read = Inr\<rparr>"
  let ?students = "[(''Alice'', [(''report.pdf'', ''Alice/report.pdf'')])]"
  note t = student_name_derivation
  have j1: "butlast (path_parts (filename ?j)) =
      [''Assignment1''] @ ''Jane Doe_998877_assignsubmission_file'' # []"
    by code_simp
  have j2: "list_all no_moodle_name [''Assignment1'']" by code_simp
  have j3: "re_match_moodle ''Jane Doe_998877_assignsubmission_file'' = Some ''Jane Doe''"
    by code_simp
  have j4: "strip ''Jane Doe'' \<noteq> []" by code_simp
  have j5: "strip ''Jane Doe'' = ''Jane Doe''" by code_simp
  have j: "derived_name ?j = ''Jane Doe''"
    using t[of _ _ _ _ ?j "[''Assignment1'']" "''Jane Doe_998877_assignsubmission_file''" "[]"
        "''Jane Doe''", THEN conjunct2, THEN conjunct1, rule_format, OF j1 j2 j3 j4]
    unfolding j5 .
  have a1: "list_all no_moodle_name (butlast (path_parts (filename ?a)))" by code_simp
  have a2: "path_parts (filename ?a) ! 0 = ''Alice''" by code_simp
  have a: "derived_name ?a = ''Alice''"
    using t[of _ _ _ _ ?a, THEN conjunct2, THEN conjunct2, THEN conjunct1, rule_format, OF a1]
    unfolding a2 .
  have l: "extract_loop Inr [] [?a] = Inr ?students" by code_simp
  have h1: "extract_student_submissions (\<lambda>b. Inr ?zf) [] = Inr ?students"
    using l by (simp add: extract_student_submissions_def)
  have h3: "?a \<in> set (infolist ?zf)" by simp
  have h4: "\<not> skipped ?a" by code_simp
  note f = t[of "\<lambda>b. Inr ?zf" "[]" ?students ?zf ?a, THEN conjunct1, rule_format,
      OF h1 refl h3 h4]
  from j a f j3 show ?thesis by (intro conjI)
qed

text \<open>
  Where the claim as it was written fails. The only folder of
  \<open>" _1_assignsubmission_file/essay.docx"\<close> matches the pattern, with a blank as its
  captured name; trimmed, that name is empty. The claim makes the empty string the
  student name; the code files the entry under the first path segment. In
  \<open>" _1_assignsubmission_file/Bob_2_assignsubmission_file/a.txt"\<close> the first matching
  folder does not win either: the student is Bob.
\<close>

theorem first_matching_segment_counterexample:
  "re_match_moodle '' _1_assignsubmission_file'' = Some '' '' \<and>
   extract_student_name_from_moodle_folder '' _1_assignsubmission_file'' = Some [] \<and>
   extract_loop Inr [] [ZipInfo '' _1_assignsubmission_file/essay.docx''] =
     Inr [('' _1_assignsubmission_file'',
           [(''essay.docx'', '' _1_assignsubmission_file/essay.docx'')])] \<and>
   extract_loop Inr [] [ZipInfo '' _1_assignsubmission_file/Bob_2_assignsubmission_file/a.txt''] =
     Inr [(''Bob'',
           [(''a.txt'', '' _1_assignsubmission_file/Bob_2_assignsubmission_file/a.txt'')])]"
  by code_simp


section \<open>Properties of the document dispatch\<close>

subsection \<open>Lower case and path suffix\<close>

lemma lower_char_fixes:
  assumes "(of_char d :: nat) < 65"
  shows "(lower_char c = d) = (c = d)"
proof -
  have r: "char_of (of_char c + 32 :: nat) \<noteq> d"
    if "(65 \<le> (of_char c :: nat) \<and> (of_char c :: nat) \<le> 90) \<or>
        (192 \<le> (of_char c :: nat) \<and> (of_char c :: nat) \<le> 222)"
  proof
    assume "char_of (of_char c + 32 :: nat) = d"
    then have "(of_char (char_of (of_char c + 32 :: nat) :: char) :: nat) = of_char d" by simp
    then have "(of_char c + 32 :: nat) mod 256 = of_char d" by (simp add: of_char_of)
    with that assms show False by auto
  qed
  have n: "c \<noteq> d" if "65 \<le> (of_char c :: nat)"
    using that assms by auto
  show ?thesis
    unfolding lower_char_def Let_def using r n by auto
qed

lemma lower_char_slash: "(lower_char c = CHR ''/'') = (c = CHR ''/'')"
  by (rule lower_char_fixes) simp

lemma lower_char_dot: "(lower_char c = CHR ''.'') = (c = CHR ''.'')"
  by (rule lower_char_fixes) simp

lemma lower_char_dot': "(CHR ''.'' = lower_char c) = (c = CHR ''.'')"
  using lower_char_dot[of c] by auto

lemma split_sep_nonempty: "split_sep d s \<noteq> []"
  by (induction s) (auto split: list.splits)

lemma split_sep_map:
  assumes "\<And>c. (f c = d) = (c = d)"
  shows "split_sep d (map f s) = map (map f) (split_sep d s)"
proof (induction s)
  case Nil
  show ?case by simp
next
  case (Cons c cs)
  then show ?case
    using assms split_sep_nonempty[of d cs] by (cases "split_sep d cs") auto
qed

lemma takeWhile_is_map:
  assumes "\<And>c. (f c = d) = (c = d)"
  shows "takeWhile (\<lambda>c. c = d) (map f s) = map f (takeWhile (\<lambda>c. c = d) s)"
  by (induction s) (auto simp: assms)

lemma dropWhile_is_map:
  assumes "\<And>c. (f c = d) = (c = d)"
  shows "dropWhile (\<lambda>c. c = d) (map f s) = map f (dropWhile (\<lambda>c. c = d) s)"
  by (induction s) (auto simp: assms)

lemma takeWhile_not_map:
  assumes "\<And>c. (f c = d) = (c = d)"
  shows "takeWhile (\<lambda>c. c \<noteq> d) (map f s) = map f (takeWhile (\<lambda>c. c \<noteq> d) s)"
  by (induction s) (auto simp: assms)

lemma path_root_lower: "path_root (lower p) = path_root p"
  by (simp add: path_root_def lower_def takeWhile_is_map[of lower_char, OF lower_char_slash])

lemma lower_root: "lower (path_root p) = path_root p"
  by (simp add: path_root_def lower_def Let_def lower_char_slash[THEN iffD2])

lemma lower_eq_dot: "(lower x = ''.'') = (x = ''.'')"
  by (cases x) (auto simp: lower_def lower_char_dot)

lemma path_parts_lower: "path_parts (lower p) = map lower (path_parts p)"
proof -
  have f: "filter (\<lambda>x. x \<noteq> [] \<and> x \<noteq> ''.'') (map lower xs) =
      map lower (filter (\<lambda>x. x \<noteq> [] \<and> x \<noteq> ''.'') xs)" for xs
    by (induction xs) (auto simp: lower_eq_dot, auto simp: lower_def)
  have s: "split_sep (CHR ''/'') (dropWhile (\<lambda>c. c = CHR ''/'') (lower p)) =
      map lower (split_sep (CHR ''/'') (dropWhile (\<lambda>c. c = CHR ''/'') p))"
    unfolding lower_def
    by (simp add: dropWhile_is_map[of lower_char, OF lower_char_slash]
        split_sep_map[of lower_char, OF lower_char_slash])
  show ?thesis
    unfolding path_parts_def path_root_lower s f by (simp add: lower_root)
qed

lemma path_name_lower: "path_name (lower p) = lower (path_name p)"
proof (cases "length (path_parts p) = (if path_root p = [] then 0 else 1)")
  case True
  then show ?thesis
    unfolding path_name_def Let_def path_parts_lower path_root_lower
    by (simp add: lower_def)
next
  case False
  then have "path_parts p \<noteq> []"
    by (auto simp: path_parts_def split: if_splits)
  with False show ?thesis
    unfolding path_name_def Let_def path_parts_lower path_root_lower
    by (simp add: last_map)
qed

lemma rfind_lower: "rfind (lower s) (CHR ''.'') = rfind s (CHR ''.'')"
proof -
  have m: "(CHR ''.'' \<in> set (lower s)) = (CHR ''.'' \<in> set s)"
    unfolding lower_def by (induction s) (auto simp: lower_char_dot lower_char_dot')
  have t: "takeWhile (\<lambda>x. x \<noteq> CHR ''.'') (rev (lower s)) =
      map lower_char (takeWhile (\<lambda>x. x \<noteq> CHR ''.'') (rev s))"
    unfolding lower_def rev_map
    by (rule takeWhile_not_map[of lower_char, OF lower_char_dot])
  show ?thesis unfolding rfind_def m t by (simp add: lower_def)
qed

lemma path_suffix_lower: "path_suffix (lower p) = lower (path_suffix p)"
  unfolding path_suffix_def Let_def path_name_lower rfind_lower
  by (auto simp: lower_def drop_map split: option.splits)

subsection \<open>\<open>parse_document\<close>\<close>

lemma parse_document_by_ext:
  "lower (path_suffix a) = lower (path_suffix b) \<Longrightarrow>
     parse_document P a c = parse_document P b c"
  by (simp add: parse_document_def)

text \<open>
  Claim C10. \<open>parse_document\<close> is a total function of the filename: two filenames
  that differ in letter case only are dispatched alike; for an extension outside the
  supported set the result is the returned \<open>None\<close>, never an exception; for \<open>.txt\<close> and
  \<open>.md\<close> the result is the decoded text, never an exception; and every result is one of
  \<open>None\<close>, the decoded text, or what one of the four format parsers gives. A supported
  extension, in any letter case, is treated as supported: \<open>.pdf\<close> gives what \<open>parse_pdf\<close>
  gives on the content, \<open>.docx\<close> what \<open>parse_docx\<close> gives, \<open>.xlsx\<close> and \<open>.xls\<close> what
  \<open>parse_excel\<close> gives, \<open>.html\<close> and \<open>.htm\<close> what \<open>parse_html\<close> gives; and the result is
  the returned \<open>None\<close> exactly when the extension is outside the supported set.
\<close>

theorem parse_document_total_case_insensitive:
  "(lower a = lower b \<longrightarrow> parse_document P a c = parse_document P b c) \<and>
   (lower (path_suffix a) \<notin> get_supported_extensions \<longrightarrow> parse_document P a c = Inr None) \<and>
   (lower (path_suffix a) \<in> {''.txt'', ''.md''} \<longrightarrow>
      parse_document P a c = Inr (Some (decode_utf8_replace P c))) \<and>
   parse_document P a c \<in>
     {Inr None, Inr (Some (decode_utf8_replace P c)),
      map_sum id Some (parse_pdf P c), map_sum id Some (parse_docx P c),
      map_sum id Some (parse_excel P c), map_sum id Some (parse_html P c)} \<and>
   (lower (path_suffix a) = ''.pdf'' \<longrightarrow>
      parse_document P a c = map_sum id Some (parse_pdf P c)) \<and>
   (lower (path_suffix a) = ''.docx'' \<longrightarrow>
      parse_document P a c = map_sum id Some (parse_docx P c)) \<and>
   (lower (path_suffix a) \<in> {''.xlsx'', ''.xls''} \<longrightarrow>
      parse_document P a c = map_sum id Some (parse_excel P c)) \<and>
   (lower (path_suffix a) \<in> {''.html'', ''.htm''} \<longrightarrow>
      parse_document P a c = map_sum id Some (parse_html P c)) \<and>
   (parse_document P a c = Inr None) = (lower (path_suffix a) \<notin> get_supported_extensions)"
proof (intro conjI impI)
  assume "lower a = lower b"
  then have "path_suffix (lower a) = path_suffix (lower b)" by simp
  then have "lower (path_suffix a) = lower (path_suffix b)"
    by (simp only: path_suffix_lower)
  then show "parse_document P a c = parse_document P b c"
    by (rule parse_document_by_ext)
next
  assume "lower (path_suffix a) \<notin> get_supported_extensions"
  then show "parse_document P a c = Inr None"
    by (simp add: get_supported_extensions_def parse_document_def)
next
  assume "lower (path_suffix a) \<in> {''.txt'', ''.md''}"
  then show "parse_document P a c = Inr (Some (decode_utf8_replace P c))"
    by (auto simp: parse_document_def)
next
  show "parse_document P a c \<in>
     {Inr None, Inr (Some (decode_utf8_replace P c)),
      map_sum id Some (parse_pdf P c), map_sum id Some (parse_docx P c),
      map_sum id Some (parse_excel P c), map_sum id Some (parse_html P c)}"
    by (simp add: parse_document_def Let_def)
next
  assume "lower (path_suffix a) = ''.pdf''"
  then show "parse_document P a c = map_sum id Some (parse_pdf P c)"
    by (simp add: parse_document_def)
next
  assume "lower (path_suffix a) = ''.docx''"
  then show "parse_document P a c = map_sum id Some (parse_docx P c)"
    by (simp add: parse_document_def)
next
  assume "lower (path_suffix a) \<in> {''.xlsx'', ''.xls''}"
  then show "parse_document P a c = map_sum id Some (parse_excel P c)"
    by (auto simp: parse_document_def)
next
  assume "lower (path_suffix a) \<in> {''.html'', ''.htm''}"
  then show "parse_document P a c = map_sum id Some (parse_html P c)"
    by (auto simp: parse_document_def)
next
  have n: "map_sum id Some x \<noteq> Inr None" for x :: "py_error + string"
    by (cases x) simp_all
  show "(parse_document P a c = Inr None) =
      (lower (path_suffix a) \<notin> get_supported_extensions)"
    by (simp add: parse_document_def Let_def get_supported_extensions_def n)
qed

text \<open>\<open>REPORT.PDF\<close>, \<open>essay.TXT\<close>, \<open>Notes.Docx\<close>, \<open>grades.XLS\<close>, \<open>page.HTM\<close> and an
  unsupported \<open>notes.zip\<close>, with parsers that mark their output with their format
  and a decoder that returns the bytes as they are.\<close>

theorem parse_document_total_case_insensitive_witness:
  "lower ''REPORT.PDF'' = lower ''report.pdf'' \<and>
   parse_document \<lparr>parse_pdf = \<lambda>c. Inr (''PDF:'' @ c), parse_docx = \<lambda>c. Inr (''DOCX:'' @ c),
       parse_excel = \<lambda>c. Inr (''XLS:'' @ c), parse_html = \<lambda>c. Inl ParserError,
       decode_utf8_replace = \<lambda>c. c\<rparr> ''REPORT.PDF'' ''x'' =
     parse_document \<lparr>parse_pdf = \<lambda>c. Inr (''PDF:'' @ c), parse_docx = \<lambda>c. Inr (''DOCX:'' @ c),
       parse_excel = \<lambda>c. Inr (''XLS:'' @ c), parse_html = \<lambda>c. Inl ParserError,
       decode_utf8_replace = \<lambda>c. c\<rparr> ''report.pdf'' ''x'' \<and>
   lower (path_suffix ''REPORT.PDF'') = ''.pdf'' \<and>
   parse_document \<lparr>parse_pdf = \<lambda>c. Inr (''PDF:'' @ c), parse_docx = \<lambda>c. Inr (''DOCX:'' @ c),
       parse_excel = \<lambda>c. Inr (''XLS:'' @ c), parse_html = \<lambda>c. Inl ParserError,
       decode_utf8_replace = \<lambda>c. c\<rparr> ''REPORT.PDF'' ''x'' = Inr (Some ''PDF:x'') \<and>
   parse_document \<lparr>parse_pdf = \<lambda>c. Inr (''PDF:'' @ c), parse_docx = \<lambda>c. Inr (''DOCX:'' @ c),
       parse_excel = \<lambda>c. Inr (''XLS:'' @ c), parse_html = \<lambda>c. Inl ParserError,
       decode_utf8_replace = \<lambda>c. c\<rparr> ''Notes.Docx'' ''x'' = Inr (Some ''DOCX:x'') \<and>
   parse_document \<lparr>parse_pdf = \<lambda>c. Inr (''PDF:'' @ c), parse_docx = \<lambda>c. Inr (''DOCX:'' @ c),
       parse_excel = \<lambda>c. Inr (''XLS:'' @ c), parse_html = \<lambda>c. Inl ParserError,
       decode_utf8_replace = \<lambda>c. c\<rparr> ''grades.XLS'' ''x'' = Inr (Some ''XLS:x'') \<and>
   parse_document \<lparr>parse_pdf = \<lambda>c. Inr (''PDF:'' @ c), parse_docx = \<lambda>c. Inr (''DOCX:'' @ c),
       parse_excel = \<lambda>c. Inr (''XLS:'' @ c), parse_html = \<lambda>c. Inl ParserError,
       decode_utf8_replace = \<lambda>c. c\<rparr> ''page.HTM'' ''x'' = Inl ParserError \<and>
   lower (path_suffix ''notes.zip'') \<notin> get_supported_extensions \<and>
   parse_document \<lparr>parse_pdf = \<lambda>c. Inr (''PDF:'' @ c), parse_docx = \<lambda>c. Inr (''DOCX:'' @ c),
       parse_excel = \<lambda>c. Inr (''XLS:'' @ c), parse_html = \<lambda>c. Inl ParserError,
       decode_utf8_replace = \<lambda>c. c\<rparr> ''notes.zip'' ''PK'' = Inr None \<and>
   lower (path_suffix ''essay.TXT'') \<in> {''.txt'', ''.md''} \<and>
   parse_document \<lparr>parse_pdf = \<lambda>c. Inr (''PDF:'' @ c), parse_docx = \<lambda>c. Inr (''DOCX:'' @ c),
       parse_excel = \<lambda>c. Inr (''XLS:'' @ c), parse_html = \<lambda>c. Inl ParserError,
       decode_utf8_replace = \<lambda>c. c\<rparr> ''essay.TXT'' ''hello'' = Inr (Some ''hello'')"
proof -
  let ?P = "\<lparr>parse_pdf = \<lambda>c. Inr (''PDF:'' @ c), parse_docx = \<lambda>c. Inr (''DOCX:'' @ c),
       parse_excel = \<lambda>c. Inr (''XLS:'' @ c), parse_html = \<lambda>c. Inl ParserError,
       decode_utf8_replace = \<lambda>c. c\<rparr>"
  note t = parse_document_total_case_insensitive
  have h1: "lower ''REPORT.PDF'' = lower ''report.pdf''" by code_simp
  have e2: "lower (path_suffix ''notes.zip'') = ''.zip''" by code_simp
  have h2: "lower (path_suffix ''notes.zip'') \<notin> get_supported_extensions"
    unfolding e2 get_supported_extensions_def by simp
  have e3: "lower (path_suffix ''essay.TXT'') = ''.txt''" by code_simp
  have h3: "lower (path_suffix ''essay.TXT'') \<in> {''.txt'', ''.md''}"
    unfolding e3 by simp
  have h4: "lower (path_suffix ''REPORT.PDF'') = ''.pdf''" by code_simp
  have h5: "lower (path_suffix ''Notes.Docx'') = ''.docx''" by code_simp
  have e6: "lower (path_suffix ''grades.XLS'') = ''.xls''" by code_simp
  have h6: "lower (path_suffix ''grades.XLS'') \<in> {''.xlsx'', ''.xls''}"
    unfolding e6 by simp
  have e7: "lower (path_suffix ''page.HTM'') = ''.htm''" by code_simp
  have h7: "lower (path_suffix ''page.HTM'') \<in> {''.html'', ''.htm''}"
    unfolding e7 by simp
  note a = t[of "''REPORT.PDF''" "''report.pdf''" ?P "''x''", THEN conjunct1, rule_format, OF h1]
  note b = t[of "''notes.zip''" _ ?P "''PK''", THEN conjunct2, THEN conjunct1, rule_format, OF h2]
  have c: "parse_document ?P ''essay.TXT'' ''hello'' = Inr (Some ''hello'')"
    using t[of "''essay.TXT''" _ ?P "''hello''", THEN conjunct2, THEN conjunct2, THEN conjunct1,
        rule_format, OF h3] by simp
  have d: "parse_document ?P ''REPORT.PDF'' ''x'' = Inr (Some ''PDF:x'')"
    using t[of "''REPORT.PDF''" _ ?P "''x''", THEN conjunct2, THEN conjunct2, THEN conjunct2,
        THEN conjunct2, THEN conjunct1, rule_format, OF h4] by simp
  have e: "parse_document ?P ''Notes.Docx'' ''x'' = Inr (Some ''DOCX:x'')"
    using t[of "''Notes.Docx''" _ ?P "''x''", THEN conjunct2, THEN conjunct2, THEN conjunct2,
        THEN conjunct2, THEN conjunct2, THEN conjunct1, rule_format, OF h5] by simp
  have f: "parse_document ?P ''grades.XLS'' ''x'' = Inr (Some ''XLS:x'')"
    using t[of "''grades.XLS''" _ ?P "''x''", THEN conjunct2, THEN conjunct2, THEN conjunct2,
        THEN conjunct2, THEN conjunct2, THEN conjunct2, THEN conjunct1, rule_format, OF h6]
    by simp
  have g: "parse_document ?P ''page.HTM'' ''x'' = Inl ParserError"
    using t[of "''page.HTM''" _ ?P "''x''", THEN conjunct2, THEN conjunct2, THEN conjunct2,
        THEN conjunct2, THEN conjunct2, THEN conjunct2, THEN conjunct2, THEN conjunct1,
        rule_format, OF h7] by simp
  from h1 a h4 d e f g h2 b h3 c show ?thesis by (intro conjI)
qed


section \<open>Properties of the prompt composition\<close>

lemma join_sections:
  "join [LF] (concat (map (\<lambda>hb. [fst hb, snd hb]) secs)) = sections_in_order secs"
proof (induction secs rule: induct_list012)
  case 1
  show ?case by (simp add: sections_in_order_def)
next
  case (2 x)
  show ?case by (simp add: sections_in_order_def labelled_section_def)
next
  case (3 x y zs)
  then show ?case by (simp add: sections_in_order_def labelled_section_def)
qed

lemma build_sections:
  "build_evaluation_prompt w g kb ci =
     sections_in_order ([(grid_heading, g)] @ optional_section knowledge_heading kb @
        optional_section instructions_heading ci @ [(work_heading, w)])"
  unfolding join_sections[symmetric] build_evaluation_prompt_def optional_section_def
  by simp

lemma free_sections:
  "free_format_prompt n w g kb fmt ci =
     sections_in_order (optional_section grid_heading g @
        optional_section knowledge_heading kb @ optional_section instructions_heading ci @
        [(format_heading, fmt), (named_work_heading n, w)])"
  unfolding join_sections[symmetric] free_format_prompt_def optional_section_def
  by simp

text \<open>
  Claim C7, as the code has it. In structured mode the user prompt is, in this order,
  the rubric section (always present), the knowledge-base section (left out when empty),
  the custom-instructions section (left out when empty) and the student submission
  section, each a heading followed by its body; the student's name is no part of the
  messages, which are the same for every name. In free-form mode the user prompt is the
  rubric section (left out when empty), the knowledge-base section (left out when
  empty), the custom-instructions section (left out when empty), the output-format
  section (always present) and the student submission section, whose heading holds the
  student's name.
\<close>

theorem prompt_sections_in_order:
  "build_evaluation_prompt w g kb ci =
     sections_in_order ([(grid_heading, g)] @ optional_section knowledge_heading kb @
        optional_section instructions_heading ci @ [(work_heading, w)]) \<and>
   evaluate_student_work_messages n w g kb sys ci =
     [(''system'', sys), (''user'', build_evaluation_prompt w g kb ci)] \<and>
   evaluate_student_work_messages n w g kb sys ci =
     evaluate_student_work_messages n' w g kb sys ci \<and>
   free_format_prompt n w g kb fmt ci =
     sections_in_order (optional_section grid_heading g @
        optional_section knowledge_heading kb @ optional_section instructions_heading ci @
        [(format_heading, fmt), (named_work_heading n, w)]) \<and>
   evaluate_student_work_free_format_messages n w g kb sys fmt ci =
     [(''system'', sys), (''user'', free_format_prompt n w g kb fmt ci)] \<and>
   (\<exists>a b. named_work_heading n = a @ ''('' @ n @ '')'' @ b)"
proof (intro conjI)
  show "\<exists>a b. named_work_heading n = a @ ''('' @ n @ '')'' @ b"
    unfolding named_work_heading_def
    by (intro exI[of _ "[LF, LF] @ ''## Travail de l'' @ [CHR 0x27, CHR 0xE9] @ ''tudiant ''"]
        exI[of _ "'' '' @ [CHR 0xE0] @ '' '' @ [CHR 0xE9] @ ''valuer'' @ [LF]"]) simp
qed (simp_all add: build_sections free_sections evaluate_student_work_messages_def
    evaluate_student_work_free_format_messages_def)

text \<open>A rubric and a submission, with no knowledge base and no custom instructions.\<close>

theorem prompt_sections_in_order_witness:
  "build_evaluation_prompt ''work'' ''grid'' [] [] =
     grid_heading @ [LF] @ ''grid'' @ [LF] @ work_heading @ [LF] @ ''work'' \<and>
   free_format_prompt ''Alice'' ''work'' ''grid'' [] ''fmt'' ''be kind'' =
     grid_heading @ [LF] @ ''grid'' @ [LF] @ instructions_heading @ [LF] @ ''be kind'' @ [LF] @
     format_heading @ [LF] @ ''fmt'' @ [LF] @ named_work_heading ''Alice'' @ [LF] @ ''work''"
proof -
  note t = prompt_sections_in_order
  have a: "build_evaluation_prompt ''work'' ''grid'' [] [] =
     grid_heading @ [LF] @ ''grid'' @ [LF] @ work_heading @ [LF] @ ''work''"
    unfolding t[of "''work''" "''grid''" "[]" "[]", THEN conjunct1]
    by (simp add: sections_in_order_def labelled_section_def optional_section_def)
  have b: "free_format_prompt ''Alice'' ''work'' ''grid'' [] ''fmt'' ''be kind'' =
     grid_heading @ [LF] @ ''grid'' @ [LF] @ instructions_heading @ [LF] @ ''be kind'' @ [LF] @
     format_heading @ [LF] @ ''fmt'' @ [LF] @ named_work_heading ''Alice'' @ [LF] @ ''work''"
    unfolding t[of "''work''" "''grid''" "[]" "''be kind''" "''Alice''" _ _ "''fmt''",
        THEN conjunct2, THEN conjunct2, THEN conjunct2, THEN conjunct1]
    by (simp add: sections_in_order_def labelled_section_def optional_section_def)
  from a b show ?thesis ..
qed

text \<open>
  Where the claim as it was written fails. In structured mode the messages for Alice
  and for Bob are the same and the name is nowhere in the prompt: there is no identity
  line. In free-form mode with an empty rubric the rubric heading is not in the prompt:
  the rubric section is left out.
\<close>

theorem structured_prompt_identity_counterexample:
  "evaluate_student_work_messages ''Alice'' ''work'' ''grid'' [] ''sys'' [] =
     evaluate_student_work_messages ''Bob'' ''work'' ''grid'' [] ''sys'' [] \<and>
   \<not> py_in ''Alice'' (build_evaluation_prompt ''work'' ''grid'' [] []) \<and>
   py_in ''Alice'' (free_format_prompt ''Alice'' ''work'' ''grid'' [] ''fmt'' []) \<and>
   \<not> py_in grid_heading (free_format_prompt ''Alice'' ''work'' [] [] ''fmt'' [])"
  by code_simp


section \<open>Properties of the orchestrator\<close>

subsection \<open>Steps and invariants\<close>

lemma count_and_notify_keeps:
  "count_and_notify cfg name s = (s1, x) \<Longrightarrow>
     tasks s1 = tasks s \<and> sem_value s1 = sem_value s \<and> first_raised s1 = first_raised s \<and>
     completed s1 = completed s + 1"
  by (auto simp: count_and_notify_def Let_def split: option.splits)

lemma except_branch_keeps:
  "except_branch cfg on_failure name e s = (s1, t) \<Longrightarrow>
     tasks s1 = tasks s \<and> sem_value s1 = sem_value s \<and> first_raised s1 = first_raised s \<and>
     terminal t"
  by (auto simp: except_branch_def terminal_def split: prod.splits option.splits
      dest!: count_and_notify_keeps)

lemma try_statement_keeps:
  "try_statement cfg on_success on_failure name r s = (s1, t) \<Longrightarrow>
     tasks s1 = tasks s \<and> sem_value s1 = sem_value s \<and> first_raised s1 = first_raised s \<and>
     terminal t"
  by (auto simp: try_statement_def terminal_def split: sum.splits prod.splits option.splits
      dest!: count_and_notify_keeps except_branch_keeps)

lemma finish_task_shape:
  "\<exists>t. terminal t \<and> tasks (finish_task cfg on_success on_failure i r s) = (tasks s)[i := t] \<and>
     sem_value (finish_task cfg on_success on_failure i r s) = sem_value s + 1"
proof -
  obtain s1 t where st: "try_statement cfg on_success on_failure
      (fst (student_submissions cfg ! i)) r s = (s1, t)"
    by (cases "try_statement cfg on_success on_failure (fst (student_submissions cfg ! i)) r s")
  from try_statement_keeps[OF st] show ?thesis
    by (auto simp: finish_task_def st)
qed

lemma count_update:
  assumes "i < length xs"
  shows "length (filter P (xs[i := x])) + (if P (xs ! i) then 1 else 0) =
     length (filter P xs) + (if P x then 1 else 0)"
  using assms
proof (induction xs arbitrary: i)
  case Nil
  then show ?case by simp
next
  case (Cons a xs)
  then show ?case by (cases i) auto
qed

lemma step_cases:
  assumes "step cfg on_success on_failure s ev = Some s1"
  obtains (acquire) i where "ev = Acquire i" "i < length (tasks s)" "tasks s ! i = Waiting"
      "0 < sem_value s" "s1 = s\<lparr>sem_value := sem_value s - 1, tasks := (tasks s)[i := Running]\<rparr>"
    | (respond) i r where "ev = Respond i r" "i < length (tasks s)" "tasks s ! i = Running"
      "s1 = finish_task cfg on_success on_failure i r s"
  using assms by (cases ev) (auto simp: step_def split: if_splits)

lemma step_limit:
  assumes "step cfg on_success on_failure s ev = Some s1"
  shows "sem_value s1 + in_flight s1 = sem_value s + in_flight s"
  using assms
proof (cases rule: step_cases)
  case (acquire i)
  from count_update[OF acquire(2), of "\<lambda>t. t = Running" Running] acquire(3,4,5)
  show ?thesis by (simp add: in_flight_def)
next
  case (respond i r)
  from finish_task_shape[of cfg on_success on_failure i r s]
  obtain t where t: "terminal t" "tasks s1 = (tasks s)[i := t]" "sem_value s1 = sem_value s + 1"
    unfolding respond(4) by blast
  from count_update[OF respond(2), of "\<lambda>t. t = Running" t] respond(3) t
  show ?thesis by (simp add: in_flight_def terminal_def)
qed

lemma step_length:
  assumes "step cfg on_success on_failure s ev = Some s1"
  shows "length (tasks s1) = length (tasks s)"
  using assms
proof (cases rule: step_cases)
  case (acquire i)
  then show ?thesis by simp
next
  case (respond i r)
  from finish_task_shape[of cfg on_success on_failure i r s] respond(4)
  show ?thesis by auto
qed

lemma run_events_invariant:
  assumes "\<And>s ev s1. P s \<Longrightarrow> step cfg on_success on_failure s ev = Some s1 \<Longrightarrow> P s1"
    and "P s0" and "run_events cfg on_success on_failure s0 evs = Some s"
  shows "P s"
  using assms(2,3)
proof (induction evs arbitrary: s0)
  case Nil
  then show ?case by simp
next
  case (Cons ev evs)
  from Cons.prems(2) obtain s1 where 1: "step cfg on_success on_failure s0 ev = Some s1"
    and 2: "run_events cfg on_success on_failure s1 evs = Some s"
    by (auto split: option.splits)
  from assms(1)[OF Cons.prems(1) 1] have "P s1" .
  from Cons.IH[OF this 2] show ?case .
qed

lemma run_events_append:
  "run_events cfg on_success on_failure s0 (xs @ ys) =
     (case run_events cfg on_success on_failure s0 xs of
        None \<Rightarrow> None
      | Some s1 \<Rightarrow> run_events cfg on_success on_failure s1 ys)"
  by (induction xs arbitrary: s0) (auto split: option.splits)

lemma start_state:
  assumes "start cfg = Inr s0"
  shows "0 \<le> max_concurrent cfg" "sem_value s0 = nat (max_concurrent cfg)"
    "tasks s0 = replicate (total cfg) Waiting" "completed s0 = 0" "calls s0 = []"
    "first_raised s0 = None"
  using assms by (auto simp: start_def split: if_splits)

lemma limit_invariant:
  assumes "start cfg = Inr s0" and "run_events cfg on_success on_failure s0 evs = Some s"
  shows "sem_value s + in_flight s = nat (max_concurrent cfg)"
proof -
  have "sem_value s0 + in_flight s0 = nat (max_concurrent cfg)"
    using start_state[OF assms(1)] by (simp add: in_flight_def)
  then show ?thesis
    using assms(2)
    by (rule run_events_invariant[where P = "\<lambda>s. sem_value s + in_flight s = nat (max_concurrent cfg)",
        rotated]) (simp add: step_limit)
qed

subsection \<open>The concurrency bound\<close>

text \<open>
  Claim C5. During every run, in both modes and whatever the callback does, at most
  \<open>max_concurrent\<close> evaluation calls are in flight: after every prefix of the events of a
  run the number of running tasks is at most the limit, and it is the limit less the
  semaphore's value. The calls may end in any order: every call in flight can be the
  next one to end.
\<close>

theorem at_most_max_concurrent_in_flight:
  "(start cfg = Inr s0 \<longrightarrow>
    run_events cfg on_success on_failure s0 (evs @ later) = Some s \<longrightarrow>
      (\<exists>s1. run_events cfg on_success on_failure s0 evs = Some s1 \<and>
         int (in_flight s1) \<le> max_concurrent cfg \<and>
         sem_value s1 + in_flight s1 = nat (max_concurrent cfg))) \<and>
   (i < length (tasks s) \<longrightarrow> tasks s ! i = Running \<longrightarrow>
      step cfg on_success on_failure s (Respond i r) \<noteq> None)"
proof (intro conjI impI)
  assume st: "start cfg = Inr s0"
    and run: "run_events cfg on_success on_failure s0 (evs @ later) = Some s"
  from run obtain s1 where 1: "run_events cfg on_success on_failure s0 evs = Some s1"
    by (auto simp: run_events_append split: option.splits)
  from limit_invariant[OF st 1] start_state(1)[OF st] 1
  show "\<exists>s1. run_events cfg on_success on_failure s0 evs = Some s1 \<and>
         int (in_flight s1) \<le> max_concurrent cfg \<and>
         sem_value s1 + in_flight s1 = nat (max_concurrent cfg)"
    by auto
next
  assume "i < length (tasks s)" "tasks s ! i = Running"
  then show "step cfg on_success on_failure s (Respond i r) \<noteq> None"
    by (simp add: step_def)
qed

text \<open>Three students under a limit of two: Carol and Alice enter, Alice's call ends
  first, Bob enters; later Carol's call raises and Bob's ends.\<close>

theorem at_most_max_concurrent_in_flight_witness:
  "\<exists>s1. run_events
       \<lparr>student_submissions = [(''Alice'', ''a''), (''Bob'', ''b''), (''Carol'', ''c'')],
        max_concurrent = 2, progress_callback = None\<rparr>
       free_format_success free_format_failure
       \<lparr>sem_value = 2, completed = 0, calls = [], tasks = [Waiting, Waiting, Waiting],
        first_raised = None\<rparr>
       [Acquire 2, Acquire 0, Respond 0 (Inr ''ok''), Acquire 1] = Some s1 \<and>
     int (in_flight s1) \<le> 2 \<and> sem_value s1 + in_flight s1 = 2"
proof -
  let ?cfg = "\<lparr>student_submissions = [(''Alice'', ''a''), (''Bob'', ''b''), (''Carol'', ''c'')],
        max_concurrent = 2, progress_callback = None\<rparr>"
  let ?s0 = "\<lparr>sem_value = 2, completed = 0, calls = [], tasks = [Waiting, Waiting, Waiting],
        first_raised = None\<rparr> :: (string \<times> (exn + string)) run_state"
  let ?evs = "[Acquire 2, Acquire 0, Respond 0 (Inr ''ok''), Acquire 1] :: string event list"
  let ?later = "[Respond 2 (Inl (Exn ''boom'')), Respond 1 (Inr ''fine'')] :: string event list"
  have st: "start ?cfg = Inr ?s0"
    by (simp add: start_def total_def numeral_3_eq_3)
  have "run_events ?cfg free_format_success free_format_failure ?s0 (?evs @ ?later) \<noteq> None"
    by code_simp
  then obtain s where run:
    "run_events ?cfg free_format_success free_format_failure ?s0 (?evs @ ?later) = Some s"
    by blast
  from at_most_max_concurrent_in_flight[of ?cfg ?s0 free_format_success free_format_failure
      ?evs ?later s, THEN conjunct1, rule_format, OF st run]
  show ?thesis by simp
qed


subsection \<open>Callbacks that return\<close>

lemma count_and_notify_quiet:
  assumes "callback_returns cfg"
  shows "count_and_notify cfg name s =
     (s\<lparr>completed := completed s + 1,
        calls := calls s @ (case progress_callback cfg of None \<Rightarrow> []
                            | Some cb \<Rightarrow> [(completed s + 1, total cfg, name)])\<rparr>, None)"
  using assms
  by (auto simp: count_and_notify_def callback_returns_def Let_def split: option.splits)

lemma try_statement_quiet:
  assumes "callback_returns cfg"
  shows "try_statement cfg on_success on_failure name r s =
     (s\<lparr>completed := completed s + 1,
        calls := calls s @ (case progress_callback cfg of None \<Rightarrow> []
                            | Some cb \<Rightarrow> [(completed s + 1, total cfg, name)])\<rparr>,
      Returned (outcome on_success on_failure name r))"
  by (cases r)
    (simp_all add: try_statement_def except_branch_def count_and_notify_quiet[OF assms] outcome_def)

lemma finish_task_quiet:
  assumes "callback_returns cfg"
  shows "completed (finish_task cfg on_success on_failure i r s) = completed s + 1"
    and "calls (finish_task cfg on_success on_failure i r s) =
       calls s @ (case progress_callback cfg of None \<Rightarrow> []
                  | Some cb \<Rightarrow> [(completed s + 1, total cfg, name_of cfg i)])"
    and "tasks (finish_task cfg on_success on_failure i r s) =
       (tasks s)[i := Returned (outcome on_success on_failure (name_of cfg i) r)]"
    and "first_raised (finish_task cfg on_success on_failure i r s) = first_raised s"
  by (simp_all add: finish_task_def try_statement_quiet[OF assms] name_of_def
      split: option.splits)

lemma run_Cons:
  assumes "run_events cfg on_success on_failure s0 (ev # evs) = Some s"
  obtains s1 where "step cfg on_success on_failure s0 ev = Some s1"
    and "run_events cfg on_success on_failure s1 evs = Some s"
  using assms by (auto split: option.splits)

lemma zip_upt_Cons:
  "a < b \<Longrightarrow> zip [a ..< b] (x # xs) = (a, x) # zip [Suc a ..< b] xs"
  by (simp add: upt_conv_Cons)

lemma calls_log:
  assumes "callback_returns cfg" and "progress_callback cfg = Some cb"
    and "run_events cfg on_success on_failure s0 evs = Some s"
  shows "completed s = completed s0 + length (finished evs) \<and>
     calls s = calls s0 @
       zip [Suc (completed s0) ..< Suc (completed s0) + length (finished evs)]
         (map (\<lambda>i. (total cfg, name_of cfg i)) (finished evs))"
  using assms(3)
proof (induction evs arbitrary: s0)
  case Nil
  then show ?case by simp
next
  case (Cons ev evs)
  from Cons.prems obtain s1 where 1: "step cfg on_success on_failure s0 ev = Some s1"
    and 2: "run_events cfg on_success on_failure s1 evs = Some s"
    by (rule run_Cons)
  note ih = Cons.IH[OF 2]
  from 1 show ?case
  proof (cases rule: step_cases)
    case (acquire i)
    with ih show ?thesis by simp
  next
    case (respond i r)
    have c: "completed s1 = Suc (completed s0)"
      and l: "calls s1 = calls s0 @ [(Suc (completed s0), total cfg, name_of cfg i)]"
      unfolding respond(4) using finish_task_quiet[OF assms(1)] assms(2) by simp_all
    show ?thesis
      using ih unfolding c l respond(1)
      by (simp add: zip_upt_Cons del: upt_Suc)
  qed
qed

lemma step_done_set:
  assumes "step cfg on_success on_failure s ev = Some s1"
  shows "done_set s1 = done_set s \<union> set (finished [ev]) \<and> set (finished [ev]) \<inter> done_set s = {}"
  using assms
proof (cases rule: step_cases)
  case (acquire i)
  have "terminal ((tasks s)[i := Running] ! j) = terminal (tasks s ! j)" for j
    using acquire(2,3) by (cases "j = i") (auto simp: terminal_def)
  then show ?thesis
    unfolding acquire(1,5) by (simp add: done_set_def)
next
  case (respond i r)
  from finish_task_shape[of cfg on_success on_failure i r s]
  obtain t where t: "terminal t" "tasks s1 = (tasks s)[i := t]"
    unfolding respond(4) by blast
  have "(j < length (tasks s) \<and> terminal ((tasks s)[i := t] ! j)) =
      (j = i \<or> (j < length (tasks s) \<and> terminal (tasks s ! j)))" for j
    using respond(2,3) t(1) by (cases "j = i") (auto simp: terminal_def)
  then have "done_set s1 = insert i (done_set s)"
    unfolding done_set_def t(2) by auto
  moreover have "i \<notin> done_set s"
    using respond(3) by (simp add: done_set_def terminal_def)
  ultimately show ?thesis unfolding respond(1) by simp
qed

lemma finished_Cons: "finished (ev # evs) = finished [ev] @ finished evs"
  by (cases ev) simp_all

lemma finished_once:
  assumes "run_events cfg on_success on_failure s0 evs = Some s"
  shows "distinct (finished evs) \<and> set (finished evs) \<inter> done_set s0 = {} \<and>
     done_set s = done_set s0 \<union> set (finished evs)"
  using assms
proof (induction evs arbitrary: s0)
  case Nil
  then show ?case by simp
next
  case (Cons ev evs)
  from Cons.prems obtain s1 where 1: "step cfg on_success on_failure s0 ev = Some s1"
    and 2: "run_events cfg on_success on_failure s1 evs = Some s"
    by (rule run_Cons)
  note ih = Cons.IH[OF 2]
  note st = step_done_set[OF 1]
  have d: "distinct (finished [ev])" by (cases ev) simp_all
  show ?case
    unfolding finished_Cons[of ev evs] using ih st d by auto
qed

lemma run_length:
  assumes "run_events cfg on_success on_failure s0 evs = Some s"
  shows "length (tasks s) = length (tasks s0)"
  using assms(1)
  by (rule run_events_invariant[where P = "\<lambda>s. length (tasks s) = length (tasks s0)", rotated 2])
    (simp_all add: step_length)

lemma quiet_no_raise:
  assumes "callback_returns cfg" and "first_raised s0 = None"
    and "run_events cfg on_success on_failure s0 evs = Some s"
  shows "first_raised s = None"
  using assms(2,3)
proof (rule run_events_invariant[where P = "\<lambda>s. first_raised s = None", rotated])
  fix s ev s1
  assume a: "first_raised (s :: 'a run_state) = None"
    and b: "step cfg on_success on_failure s ev = Some s1"
  from b show "first_raised s1 = None"
    by (cases rule: step_cases) (simp_all add: a finish_task_quiet[OF assms(1)])
qed

lemma gather_returned_iff:
  "(gather s = Gather_returned outs) =
     (first_raised s = None \<and> tasks s = map Returned outs)"
proof -
  have a: "list_all (\<lambda>t. returned_value t \<noteq> None) ts \<Longrightarrow>
      ts = map Returned (map (\<lambda>t. the (returned_value t)) ts)" for ts :: "'a task list"
    by (induction ts) (auto simp: returned_value_def split: task.splits)
  have b: "list_all (\<lambda>t. returned_value t \<noteq> None) (map Returned outs)"
    by (induction outs) (auto simp: returned_value_def)
  have c: "map (\<lambda>t. the (returned_value t)) (map Returned outs) = outs"
    by (induction outs) (auto simp: returned_value_def)
  show ?thesis
    using a[of "tasks s"] b c by (auto simp: gather_def split: option.splits)
qed

lemma all_returned_done:
  assumes "tasks s = map Returned outs"
  shows "done_set s = {..<length outs}"
  using assms by (auto simp: done_set_def terminal_def)

lemma distinct_card_length:
  assumes "distinct xs" and "set xs = {..<n::nat}"
  shows "length xs = n"
  using assms distinct_card[of xs] by simp


subsection \<open>The progress callback\<close>

lemma start_done: "start cfg = Inr s0 \<Longrightarrow> done_set s0 = {}"
  by (auto simp: start_def done_set_def terminal_def split: if_splits)

text \<open>
  Claim C4, as the code has it. For every run with a progress callback that returns
  on every invocation, the callback is invoked once for each task whose evaluation call
  has ended, in the order in which the calls end, with the counts \<open>1, 2, ...\<close> without a
  gap or a repeat, the total, and the name of the task's student; no task is counted
  twice. When the orchestrator has returned, the counts are exactly \<open>1..total\<close> and every
  task has been counted.
\<close>

theorem progress_counts_one_to_total:
  "start cfg = Inr s0 \<longrightarrow> progress_callback cfg = Some cb \<longrightarrow> (\<forall>c t n. cb c t n = None) \<longrightarrow>
   run_events cfg on_success on_failure s0 evs = Some s \<longrightarrow>
     calls s = zip [1 ..< Suc (length (finished evs))]
                 (map (\<lambda>i. (total cfg, name_of cfg i)) (finished evs)) \<and>
     map fst (calls s) = [1 ..< Suc (length (finished evs))] \<and>
     completed s = length (finished evs) \<and>
     distinct (finished evs) \<and> set (finished evs) = done_set s \<and>
     (gather s \<noteq> Pending \<longrightarrow>
        map fst (calls s) = [1 ..< Suc (total cfg)] \<and> set (finished evs) = {..<total cfg})"
proof (intro impI)
  assume st: "start cfg = Inr s0" and cb: "progress_callback cfg = Some cb"
    and q: "\<forall>c t n. cb c t n = None"
    and run: "run_events cfg on_success on_failure s0 evs = Some s"
  have quiet: "callback_returns cfg" using cb q by (simp add: callback_returns_def)
  note s0 = start_state[OF st]
  from calls_log[OF quiet cb run] s0(4,5)
  have c: "completed s = length (finished evs)"
    and l: "calls s = zip [1 ..< Suc (length (finished evs))]
                 (map (\<lambda>i. (total cfg, name_of cfg i)) (finished evs))"
    by simp_all
  have m: "map fst (calls s) = [1 ..< Suc (length (finished evs))]"
    unfolding l by (rule map_fst_zip) (simp del: upt_Suc)
  from finished_once[OF run] start_done[OF st]
  have d: "distinct (finished evs)" and f: "set (finished evs) = done_set s"
    by auto
  have e: "map fst (calls s) = [1 ..< Suc (total cfg)] \<and> set (finished evs) = {..<total cfg}"
    if "gather s \<noteq> Pending"
  proof -
    have "first_raised s = None" by (rule quiet_no_raise[OF quiet s0(6) run])
    with that obtain outs where "gather s = Gather_returned outs"
      by (auto simp: gather_def split: if_splits)
    then have t: "tasks s = map Returned outs" by (simp add: gather_returned_iff)
    have "length (tasks s) = total cfg"
      using run_length[OF run] s0(3) by simp
    with t have n: "length outs = total cfg" by simp
    from all_returned_done[OF t] f n have u: "set (finished evs) = {..<total cfg}" by simp
    from distinct_card_length[OF d u] m u show ?thesis by simp
  qed
  from l m c d f e
  show "calls s = zip [1 ..< Suc (length (finished evs))]
                 (map (\<lambda>i. (total cfg, name_of cfg i)) (finished evs)) \<and>
     map fst (calls s) = [1 ..< Suc (length (finished evs))] \<and>
     completed s = length (finished evs) \<and>
     distinct (finished evs) \<and> set (finished evs) = done_set s \<and>
     (gather s \<noteq> Pending \<longrightarrow>
        map fst (calls s) = [1 ..< Suc (total cfg)] \<and> set (finished evs) = {..<total cfg})"
    by blast
qed

text \<open>Three students under a limit of two, the calls ending in the order Alice, Carol,
  Bob.\<close>

theorem progress_counts_one_to_total_witness:
  "\<exists>s. run_events
       \<lparr>student_submissions = [(''Alice'', ''a''), (''Bob'', ''b''), (''Carol'', ''c'')],
        max_concurrent = 2, progress_callback = Some (\<lambda>c t n. None)\<rparr>
       free_format_success free_format_failure
       \<lparr>sem_value = 2, completed = 0, calls = [], tasks = [Waiting, Waiting, Waiting],
        first_raised = None\<rparr>
       [Acquire 2, Acquire 0, Respond 0 (Inr ''ok''), Acquire 1,
        Respond 2 (Inl (Exn ''boom'')), Respond 1 (Inr ''fine'')] = Some s \<and>
     gather s \<noteq> Pending \<and>
     calls s = [(1, 3, ''Alice''), (2, 3, ''Carol''), (3, 3, ''Bob'')] \<and>
     map fst (calls s) = [1 ..< Suc 3]"
proof -
  let ?cfg = "\<lparr>student_submissions = [(''Alice'', ''a''), (''Bob'', ''b''), (''Carol'', ''c'')],
        max_concurrent = 2, progress_callback = Some (\<lambda>c t n. None)\<rparr>"
  let ?s0 = "\<lparr>sem_value = 2, completed = 0, calls = [], tasks = [Waiting, Waiting, Waiting],
        first_raised = None\<rparr> :: (string \<times> (exn + string)) run_state"
  let ?evs = "[Acquire 2, Acquire 0, Respond 0 (Inr ''ok''), Acquire 1,
        Respond 2 (Inl (Exn ''boom'')), Respond 1 (Inr ''fine'')] :: string event list"
  have st: "start ?cfg = Inr ?s0"
    by (simp add: start_def total_def numeral_3_eq_3)
  have cb: "progress_callback ?cfg = Some (\<lambda>c t n. None)" by simp
  have q: "\<forall>c t n. (\<lambda>c t n. None :: exn option) c t n = None" by simp
  have "run_events ?cfg free_format_success free_format_failure ?s0 ?evs \<noteq> None"
    by code_simp
  then obtain s where run:
    "run_events ?cfg free_format_success free_format_failure ?s0 ?evs = Some s"
    by blast
  have g: "map_option gather (run_events ?cfg free_format_success free_format_failure ?s0 ?evs)
      \<noteq> Some Pending"
    by code_simp
  with run have np: "gather s \<noteq> Pending" by simp
  have tt: "total ?cfg = 3" by (simp add: total_def)
  have z: "zip [1 ..< Suc (length (finished ?evs))]
      (map (\<lambda>i. (total ?cfg, name_of ?cfg i)) (finished ?evs)) =
      [(1, 3, ''Alice''), (2, 3, ''Carol''), (3, 3, ''Bob'')]"
    by code_simp
  note t = progress_counts_one_to_total[of ?cfg ?s0 "\<lambda>c t n. None" free_format_success
      free_format_failure ?evs s, THEN mp, OF st, THEN mp, OF cb, THEN mp, OF q,
      THEN mp, OF run]
  from t np have "map fst (calls s) = [1 ..< Suc 3]" unfolding tt by blast
  moreover from t have "calls s = [(1, 3, ''Alice''), (2, 3, ''Carol''), (3, 3, ''Bob'')]"
    unfolding z by blast
  ultimately show ?thesis using run np by blast
qed

text \<open>
  Where the claim as it was written fails. With one student and a callback that raises
  on its first invocation, the exception is caught by \<open>except Exception\<close>, the counter is
  incremented again and the callback is invoked a second time for the same task, with
  a count of 2 out of a total of 1.
\<close>

theorem raising_callback_counterexample:
  "map_option calls (run_events
       \<lparr>student_submissions = [(''Alice'', ''a'')], max_concurrent = 5,
        progress_callback = Some (\<lambda>c t n. if c = 1 then Some (Exn ''display failed'') else None)\<rparr>
       free_format_success free_format_failure
       \<lparr>sem_value = 5, completed = 0, calls = [], tasks = [Waiting], first_raised = None\<rparr>
       [Acquire 0, Respond 0 (Inr ''a good essay'')])
     = Some [(1, 1, ''Alice''), (2, 1, ''Alice'')]"
  by code_simp


subsection \<open>Every run ends, with every outcome\<close>

lemma step_to_do:
  assumes "step cfg on_success on_failure s ev = Some s1"
  shows "Suc (to_do s1) = to_do s"
  using assms
proof (cases rule: step_cases)
  case (acquire i)
  from count_update[OF acquire(2), of "\<lambda>t. t = Running" Running]
    count_update[OF acquire(2), of "\<lambda>t. t = Waiting" Running] acquire(3,5)
  show ?thesis by (simp add: to_do_def)
next
  case (respond i r)
  from finish_task_shape[of cfg on_success on_failure i r s]
  obtain t where t: "terminal t" "tasks s1 = (tasks s)[i := t]"
    unfolding respond(4) by blast
  from count_update[OF respond(2), of "\<lambda>t. t = Running" t]
    count_update[OF respond(2), of "\<lambda>t. t = Waiting" t] respond(3) t
  show ?thesis by (simp add: to_do_def terminal_def)
qed

lemma run_to_do:
  assumes "run_events cfg on_success on_failure s0 evs = Some s"
  shows "to_do s + length evs = to_do s0"
  using assms
proof (induction evs arbitrary: s0)
  case Nil
  then show ?case by simp
next
  case (Cons ev evs)
  from Cons.prems obtain s1 where 1: "step cfg on_success on_failure s0 ev = Some s1"
    and 2: "run_events cfg on_success on_failure s1 evs = Some s"
    by (rule run_Cons)
  from Cons.IH[OF 2] step_to_do[OF 1] show ?case by simp
qed

lemma run_bounded:
  assumes "start cfg = Inr s0" and "run_events cfg on_success on_failure s0 evs = Some s"
  shows "length evs \<le> 2 * total cfg"
proof -
  have "to_do s0 = 2 * total cfg"
    using start_state(3)[OF assms(1)] by (simp add: to_do_def)
  with run_to_do[OF assms(2)] show ?thesis by simp
qed

lemma raised_recorded:
  assumes "start cfg = Inr s0" and "run_events cfg on_success on_failure s0 evs = Some s"
  shows "first_raised s = None \<longrightarrow> (\<forall>t \<in> set (tasks s). \<forall>e. t \<noteq> Raised e)"
  using _ _ assms(2)
proof (rule run_events_invariant)
  show "first_raised s0 = None \<longrightarrow> (\<forall>t \<in> set (tasks s0). \<forall>e. t \<noteq> Raised e)"
    using start_state(3)[OF assms(1)] by simp
next
  fix s :: "'a run_state" and ev s1
  assume p: "first_raised s = None \<longrightarrow> (\<forall>t \<in> set (tasks s). \<forall>e. t \<noteq> Raised e)"
    and st: "step cfg on_success on_failure s ev = Some s1"
  from st show "first_raised s1 = None \<longrightarrow> (\<forall>t \<in> set (tasks s1). \<forall>e. t \<noteq> Raised e)"
  proof (cases rule: step_cases)
    case (acquire i)
    have "set ((tasks s)[i := Running]) \<subseteq> insert Running (set (tasks s))"
      by (rule set_update_subset_insert)
    with p show ?thesis unfolding acquire(5) by auto
  next
    case (respond i r)
    obtain s2 t where ts: "try_statement cfg on_success on_failure
        (fst (student_submissions cfg ! i)) r s = (s2, t)"
      by (cases "try_statement cfg on_success on_failure (fst (student_submissions cfg ! i)) r s")
    note k = try_statement_keeps[OF ts]
    have f: "first_raised s1 = (case (first_raised s, t) of
        (None, Raised e) \<Rightarrow> Some e | (fr, _) \<Rightarrow> fr)"
      and u: "tasks s1 = (tasks s)[i := t]"
      unfolding respond(4) finish_task_def ts using k by simp_all
    have sub: "set (tasks s1) \<subseteq> insert t (set (tasks s))"
      unfolding u by (rule set_update_subset_insert)
    show ?thesis
    proof
      assume n: "first_raised s1 = None"
      then have "first_raised s = None" and "\<forall>e. t \<noteq> Raised e"
        unfolding f by (auto split: option.splits task.splits)
      with p sub show "\<forall>t \<in> set (tasks s1). \<forall>e. t \<noteq> Raised e" by auto
    qed
  qed
qed

lemma pending_can_step:
  assumes st: "start cfg = Inr s0" and pos: "0 < max_concurrent cfg"
    and run: "run_events cfg on_success on_failure s0 evs = Some s"
    and pend: "gather s = Pending"
  shows "\<exists>ev. step cfg on_success on_failure s ev \<noteq> None"
proof -
  from pend have fr: "first_raised s = None"
    and nr: "\<not> list_all (\<lambda>t. returned_value t \<noteq> None) (tasks s)"
    by (auto simp: gather_def split: option.splits if_splits)
  from nr obtain i where i: "i < length (tasks s)" "returned_value (tasks s ! i) = None"
    by (auto simp: list_all_length)
  from raised_recorded[OF st run] fr i(1) have "\<forall>e. tasks s ! i \<noteq> Raised e"
    by (auto simp: in_set_conv_nth)
  with i(2) have wr: "tasks s ! i = Waiting \<or> tasks s ! i = Running"
    by (cases "tasks s ! i") (auto simp: returned_value_def)
  show ?thesis
  proof (cases "\<exists>j < length (tasks s). tasks s ! j = Running")
    case True
    then obtain j where "j < length (tasks s)" "tasks s ! j = Running" by blast
    then have "step cfg on_success on_failure s (Respond j (Inl (Exn []))) \<noteq> None"
      by (simp add: step_def)
    then show ?thesis by blast
  next
    case False
    then have "filter (\<lambda>t. t = Running) (tasks s) = []"
      by (auto simp: filter_empty_conv in_set_conv_nth)
    then have "in_flight s = 0" by (simp add: in_flight_def)
    with limit_invariant[OF st run] pos have "0 < sem_value s" by simp
    moreover from False wr i(1) have "tasks s ! i = Waiting" by blast
    ultimately have "step cfg on_success on_failure s (Acquire i) \<noteq> None"
      using i(1) by (simp add: step_def)
    then show ?thesis by blast
  qed
qed

lemma terminal_stays:
  assumes "run_events cfg on_success on_failure s0 evs = Some s"
    and "i < length (tasks s0)" and "terminal (tasks s0 ! i)"
  shows "tasks s ! i = tasks s0 ! i"
proof -
  have "i < length (tasks s) \<and> tasks s ! i = tasks s0 ! i"
    using _ _ assms(1)
  proof (rule run_events_invariant)
    show "i < length (tasks s0) \<and> tasks s0 ! i = tasks s0 ! i" using assms(2) by simp
  next
    fix s :: "'a run_state" and ev s1
    assume p: "i < length (tasks s) \<and> tasks s ! i = tasks s0 ! i"
      and st: "step cfg on_success on_failure s ev = Some s1"
    from st show "i < length (tasks s1) \<and> tasks s1 ! i = tasks s0 ! i"
    proof (cases rule: step_cases)
      case (acquire j)
      with p assms(3) have "j \<noteq> i" by (auto simp: terminal_def)
      with p show ?thesis unfolding acquire(5) by simp
    next
      case (respond j r)
      with p assms(3) have ji: "j \<noteq> i" by (auto simp: terminal_def)
      from finish_task_shape[of cfg on_success on_failure j r s]
      obtain t where "tasks s1 = (tasks s)[j := t]" unfolding respond(4) by blast
      with p ji show ?thesis by simp
    qed
  qed
  then show ?thesis ..
qed

lemma response_is_outcome:
  assumes "callback_returns cfg"
    and "run_events cfg on_success on_failure s0 evs = Some s"
    and "(i, r) \<in> set (responses evs)"
  shows "tasks s ! i = Returned (outcome on_success on_failure (name_of cfg i) r)"
  using assms(2,3)
proof (induction evs arbitrary: s0)
  case Nil
  then show ?case by simp
next
  case (Cons ev evs)
  from Cons.prems(1) obtain s1 where 1: "step cfg on_success on_failure s0 ev = Some s1"
    and 2: "run_events cfg on_success on_failure s1 evs = Some s"
    by (rule run_Cons)
  show ?case
  proof (cases "(i, r) \<in> set (responses evs)")
    case True
    from Cons.IH[OF 2 True] show ?thesis .
  next
    case False
    with Cons.prems(2) have ev: "ev = Respond i r" by (cases ev) auto
    from 1 have i: "i < length (tasks s0)" and s1: "s1 = finish_task cfg on_success on_failure i r s0"
      unfolding ev by (auto simp: step_def split: if_splits)
    have t: "tasks s1 ! i = Returned (outcome on_success on_failure (name_of cfg i) r)"
      and l: "i < length (tasks s1)"
      unfolding s1 finish_task_quiet(3)[OF assms(1)] using i by simp_all
    from terminal_stays[OF 2 l] t show ?thesis by (simp add: terminal_def)
  qed
qed

lemma map_fst_responses: "map fst (responses evs) = finished evs"
  by (induction evs rule: finished.induct) simp_all


lemma orchestrate_started:
  assumes "start cfg = Inr s0"
  shows "orchestrate cfg on_success on_failure evs =
     map_option gather (run_events cfg on_success on_failure s0 evs)"
  using assms by (simp add: orchestrate_def)

lemma positive_starts:
  assumes "0 < max_concurrent cfg"
  obtains s0 :: "'o run_state" where "start cfg = Inr s0"
  using assms by (simp add: start_def)

lemma orchestrate_outcomes:
  assumes pos: "0 < max_concurrent cfg" and quiet: "callback_returns cfg"
    and run: "orchestrate cfg on_success on_failure evs = Some g"
  shows "length evs \<le> 2 * total cfg"
    and "g \<noteq> Gather_raised e"
    and "g = Pending \<Longrightarrow> \<exists>ev. orchestrate cfg on_success on_failure (evs @ [ev]) \<noteq> None"
    and "g = Gather_returned outs \<Longrightarrow>
       length outs = total cfg \<and> distinct (finished evs) \<and>
       set (finished evs) = {..<total cfg} \<and>
       (\<forall>i r. (i, r) \<in> set (responses evs) \<longrightarrow>
          outs ! i = outcome on_success on_failure (name_of cfg i) r)"
proof -
  from pos obtain s0 :: "'a run_state" where st: "start cfg = Inr s0"
    by (rule positive_starts)
  note o = orchestrate_started[OF st]
  from run obtain s where r: "run_events cfg on_success on_failure s0 evs = Some s"
    and g: "g = gather s"
    unfolding o by auto
  show "length evs \<le> 2 * total cfg" by (rule run_bounded[OF st r])
  have fr: "first_raised s = None"
    by (rule quiet_no_raise[OF quiet start_state(6)[OF st] r])
  then show "g \<noteq> Gather_raised e" unfolding g by (simp add: gather_def)
  show "\<exists>ev. orchestrate cfg on_success on_failure (evs @ [ev]) \<noteq> None" if "g = Pending"
  proof -
    from that g have "gather s = Pending" by simp
    from pending_can_step[OF st pos r this]
    obtain ev where "step cfg on_success on_failure s ev \<noteq> None" ..
    then have "orchestrate cfg on_success on_failure (evs @ [ev]) \<noteq> None"
      unfolding o by (auto simp: run_events_append r split: option.splits)
    then show ?thesis ..
  qed
  show "length outs = total cfg \<and> distinct (finished evs) \<and>
       set (finished evs) = {..<total cfg} \<and>
       (\<forall>i r. (i, r) \<in> set (responses evs) \<longrightarrow>
          outs ! i = outcome on_success on_failure (name_of cfg i) r)"
    if "g = Gather_returned outs"
  proof -
    from that g have t: "tasks s = map Returned outs" by (simp add: gather_returned_iff)
    have "length (tasks s) = total cfg"
      using run_length[OF r] start_state(3)[OF st] by simp
    with t have n: "length outs = total cfg" by simp
    from finished_once[OF r] start_done[OF st]
    have d: "distinct (finished evs)" and f: "set (finished evs) = done_set s" by auto
    from f all_returned_done[OF t] n have u: "set (finished evs) = {..<total cfg}" by simp
    have "outs ! i = outcome on_success on_failure (name_of cfg i) r"
      if m: "(i, r) \<in> set (responses evs)" for i r
    proof -
      from m have "i \<in> set (finished evs)"
        unfolding map_fst_responses[symmetric] by force
      with u n have "i < length outs" by simp
      with t have "tasks s ! i = Returned (outs ! i)" by simp
      with response_is_outcome[OF quiet r m] show ?thesis by simp
    qed
    with n d u show ?thesis by blast
  qed
qed

lemma can_finish:
  assumes st: "start cfg = Inr s0" and pos: "0 < max_concurrent cfg"
    and run: "run_events cfg on_success on_failure s0 evs = Some s"
  shows "\<exists>later s1. run_events cfg on_success on_failure s0 (evs @ later) = Some s1 \<and>
     gather s1 \<noteq> Pending"
  using run
proof (induction "to_do s" arbitrary: s evs rule: less_induct)
  case less
  show ?case
  proof (cases "gather s = Pending")
    case False
    with less.prems have "run_events cfg on_success on_failure s0 (evs @ []) = Some s \<and>
        gather s \<noteq> Pending" by simp
    then show ?thesis by blast
  next
    case True
    from pending_can_step[OF st pos less.prems True]
    obtain ev s2 where 1: "step cfg on_success on_failure s ev = Some s2" by auto
    have 2: "run_events cfg on_success on_failure s0 (evs @ [ev]) = Some s2"
      using less.prems 1 by (simp add: run_events_append)
    from step_to_do[OF 1] have "to_do s2 < to_do s" by simp
    from less.hyps[OF this 2]
    obtain later s1 where "run_events cfg on_success on_failure s0 ((evs @ [ev]) @ later) = Some s1"
      "gather s1 \<noteq> Pending" by blast
    then have "run_events cfg on_success on_failure s0 (evs @ (ev # later)) = Some s1 \<and>
        gather s1 \<noteq> Pending" by simp
    then show ?thesis by blast
  qed
qed

lemma orchestrate_can_finish:
  assumes pos: "0 < max_concurrent cfg" and quiet: "callback_returns cfg"
    and run: "orchestrate cfg on_success on_failure evs = Some g"
  shows "\<exists>later outs. orchestrate cfg on_success on_failure (evs @ later) =
     Some (Gather_returned outs)"
proof -
  from pos obtain s0 :: "'a run_state" where st: "start cfg = Inr s0"
    by (rule positive_starts)
  note o = orchestrate_started[OF st]
  from run obtain s where r: "run_events cfg on_success on_failure s0 evs = Some s"
    unfolding o by auto
  from can_finish[OF st pos r]
  obtain later s1 where 1: "run_events cfg on_success on_failure s0 (evs @ later) = Some s1"
    and 2: "gather s1 \<noteq> Pending" by blast
  have "first_raised s1 = None"
    by (rule quiet_no_raise[OF quiet start_state(6)[OF st] 1])
  with 2 obtain outs where "gather s1 = Gather_returned outs"
    by (auto simp: gather_def split: if_splits)
  with 1 have "orchestrate cfg on_success on_failure (evs @ later) = Some (Gather_returned outs)"
    unfolding o by simp
  then show ?thesis by blast
qed

lemma free_outcome: "outcome free_format_success free_format_failure name r = (name, r)"
  by (cases r) (simp_all add: outcome_def free_format_success_def free_format_failure_def)

lemma structured_outcome:
  "outcome structured_success structured_failure name r =
     (case r of Inl e \<Rightarrow> Inl e | Inr j \<Rightarrow> Inr (make_evaluation_result name j))"
  by (cases r) (simp_all add: outcome_def structured_success_def structured_failure_def)

text \<open>
  Claim C1, as the code has it. For a positive limit and a callback that returns (or
  none), in both modes: the orchestrator starts; a run has at most two steps for each
  student; while the orchestrator is pending, a next step exists, so no task is blocked
  for good, and every run can be continued to one in which the orchestrator returns; no
  exception leaves the orchestrator; and when it returns, it returns
  exactly one outcome for each of the \<open>N\<close> students, in the order of the input mapping,
  each task having ended once, where the outcome of a student is the result of that
  student's own evaluation call: the value it returned, or the exception it raised as
  that student's failure entry, whatever the other calls did.
\<close>

theorem every_run_returns_every_outcome:
  "0 < max_concurrent cfg \<longrightarrow> callback_returns cfg \<longrightarrow>
     evaluate_all_students_async cfg [] \<noteq> None \<and>
     evaluate_all_students_free_format_async cfg [] \<noteq> None \<and>
     (evaluate_all_students_async cfg evs = Some g \<longrightarrow>
        length evs \<le> 2 * total cfg \<and> (\<forall>e. g \<noteq> Gather_raised e) \<and>
        (g = Pending \<longrightarrow> (\<exists>ev. evaluate_all_students_async cfg (evs @ [ev]) \<noteq> None)) \<and>
        (\<exists>later outs. evaluate_all_students_async cfg (evs @ later) =
           Some (Gather_returned outs)) \<and>
        (\<forall>outs. g = Gather_returned outs \<longrightarrow>
           length outs = total cfg \<and> distinct (finished evs) \<and>
           set (finished evs) = {..<total cfg} \<and>
           (\<forall>i r. (i, r) \<in> set (responses evs) \<longrightarrow>
              outs ! i = (case r of Inl e \<Rightarrow> Inl e
                          | Inr j \<Rightarrow> Inr (make_evaluation_result (name_of cfg i) j))))) \<and>
     (evaluate_all_students_free_format_async cfg fevs = Some fg \<longrightarrow>
        length fevs \<le> 2 * total cfg \<and> (\<forall>e. fg \<noteq> Gather_raised e) \<and>
        (fg = Pending \<longrightarrow>
           (\<exists>ev. evaluate_all_students_free_format_async cfg (fevs @ [ev]) \<noteq> None)) \<and>
        (\<exists>later outs. evaluate_all_students_free_format_async cfg (fevs @ later) =
           Some (Gather_returned outs)) \<and>
        (\<forall>outs. fg = Gather_returned outs \<longrightarrow>
           length outs = total cfg \<and> distinct (finished fevs) \<and>
           set (finished fevs) = {..<total cfg} \<and>
           (\<forall>i r. (i, r) \<in> set (responses fevs) \<longrightarrow> outs ! i = (name_of cfg i, r))))"
proof (intro impI)
  assume pos: "0 < max_concurrent cfg" and quiet: "callback_returns cfg"
  have a: "evaluate_all_students_async cfg [] \<noteq> None"
    and b: "evaluate_all_students_free_format_async cfg [] \<noteq> None"
    using pos
    by (simp_all add: evaluate_all_students_async_def
        evaluate_all_students_free_format_async_def orchestrate_def start_def)
  have c: "length evs \<le> 2 * total cfg \<and> (\<forall>e. g \<noteq> Gather_raised e) \<and>
        (g = Pending \<longrightarrow> (\<exists>ev. evaluate_all_students_async cfg (evs @ [ev]) \<noteq> None)) \<and>
        (\<exists>later outs. evaluate_all_students_async cfg (evs @ later) =
           Some (Gather_returned outs)) \<and>
        (\<forall>outs. g = Gather_returned outs \<longrightarrow>
           length outs = total cfg \<and> distinct (finished evs) \<and>
           set (finished evs) = {..<total cfg} \<and>
           (\<forall>i r. (i, r) \<in> set (responses evs) \<longrightarrow>
              outs ! i = (case r of Inl e \<Rightarrow> Inl e
                          | Inr j \<Rightarrow> Inr (make_evaluation_result (name_of cfg i) j))))"
    if "evaluate_all_students_async cfg evs = Some g"
    using orchestrate_outcomes[OF pos quiet that[unfolded evaluate_all_students_async_def]]
      orchestrate_can_finish[OF pos quiet that[unfolded evaluate_all_students_async_def]]
    unfolding evaluate_all_students_async_def structured_outcome by blast
  have d: "length fevs \<le> 2 * total cfg \<and> (\<forall>e. fg \<noteq> Gather_raised e) \<and>
        (fg = Pending \<longrightarrow>
           (\<exists>ev. evaluate_all_students_free_format_async cfg (fevs @ [ev]) \<noteq> None)) \<and>
        (\<exists>later outs. evaluate_all_students_free_format_async cfg (fevs @ later) =
           Some (Gather_returned outs)) \<and>
        (\<forall>outs. fg = Gather_returned outs \<longrightarrow>
           length outs = total cfg \<and> distinct (finished fevs) \<and>
           set (finished fevs) = {..<total cfg} \<and>
           (\<forall>i r. (i, r) \<in> set (responses fevs) \<longrightarrow> outs ! i = (name_of cfg i, r)))"
    if "evaluate_all_students_free_format_async cfg fevs = Some fg"
    using orchestrate_outcomes[OF pos quiet
        that[unfolded evaluate_all_students_free_format_async_def]]
      orchestrate_can_finish[OF pos quiet
        that[unfolded evaluate_all_students_free_format_async_def]]
    unfolding evaluate_all_students_free_format_async_def free_outcome by blast
  from a b c d
  show "evaluate_all_students_async cfg [] \<noteq> None \<and>
     evaluate_all_students_free_format_async cfg [] \<noteq> None \<and>
     (evaluate_all_students_async cfg evs = Some g \<longrightarrow>
        length evs \<le> 2 * total cfg \<and> (\<forall>e. g \<noteq> Gather_raised e) \<and>
        (g = Pending \<longrightarrow> (\<exists>ev. evaluate_all_students_async cfg (evs @ [ev]) \<noteq> None)) \<and>
        (\<exists>later outs. evaluate_all_students_async cfg (evs @ later) =
           Some (Gather_returned outs)) \<and>
        (\<forall>outs. g = Gather_returned outs \<longrightarrow>
           length outs = total cfg \<and> distinct (finished evs) \<and>
           set (finished evs) = {..<total cfg} \<and>
           (\<forall>i r. (i, r) \<in> set (responses evs) \<longrightarrow>
              outs ! i = (case r of Inl e \<Rightarrow> Inl e
                          | Inr j \<Rightarrow> Inr (make_evaluation_result (name_of cfg i) j))))) \<and>
     (evaluate_all_students_free_format_async cfg fevs = Some fg \<longrightarrow>
        length fevs \<le> 2 * total cfg \<and> (\<forall>e. fg \<noteq> Gather_raised e) \<and>
        (fg = Pending \<longrightarrow>
           (\<exists>ev. evaluate_all_students_free_format_async cfg (fevs @ [ev]) \<noteq> None)) \<and>
        (\<exists>later outs. evaluate_all_students_free_format_async cfg (fevs @ later) =
           Some (Gather_returned outs)) \<and>
        (\<forall>outs. fg = Gather_returned outs \<longrightarrow>
           length outs = total cfg \<and> distinct (finished fevs) \<and>
           set (finished fevs) = {..<total cfg} \<and>
           (\<forall>i r. (i, r) \<in> set (responses fevs) \<longrightarrow> outs ! i = (name_of cfg i, r))))"
    by blast
qed

text \<open>Two students under a limit of one: Bob's call is made first and raises, then
  Alice's call returns; and the same in free-form mode.\<close>

theorem every_run_returns_every_outcome_witness:
  "0 < max_concurrent \<lparr>student_submissions = [(''Alice'', ''a''), (''Bob'', ''b'')],
      max_concurrent = 1, progress_callback = Some (\<lambda>c t n. None)\<rparr> \<and>
   callback_returns \<lparr>student_submissions = [(''Alice'', ''a''), (''Bob'', ''b'')],
      max_concurrent = 1, progress_callback = Some (\<lambda>c t n. None)\<rparr> \<and>
   evaluate_all_students_async
     \<lparr>student_submissions = [(''Alice'', ''a''), (''Bob'', ''b'')], max_concurrent = 1,
      progress_callback = Some (\<lambda>c t n. None)\<rparr>
     [Acquire 1, Respond 1 (Inl (Exn ''timeout'')), Acquire 0, Respond 0 (Inr (''good'', [], 15, 20))]
   = Some (Gather_returned [Inr \<lparr>student_name = ''Alice'', feedback_general = ''good'',
        criteres = [], note_finale = 15, note_max = 20\<rparr>, Inl (Exn ''timeout'')]) \<and>
   length [Inr \<lparr>student_name = ''Alice'', feedback_general = ''good'',
        criteres = [], note_finale = 15, note_max = 20\<rparr>, Inl (Exn ''timeout'')] =
     total \<lparr>student_submissions = [(''Alice'', ''a''), (''Bob'', ''b'')], max_concurrent = 1,
      progress_callback = Some (\<lambda>c t n. None)\<rparr> \<and>
   evaluate_all_students_free_format_async
     \<lparr>student_submissions = [(''Alice'', ''a''), (''Bob'', ''b'')], max_concurrent = 1,
      progress_callback = Some (\<lambda>c t n. None)\<rparr>
     [Acquire 1, Respond 1 (Inl (Exn ''timeout'')), Acquire 0, Respond 0 (Inr ''well done'')]
   = Some (Gather_returned [(''Alice'', Inr ''well done''), (''Bob'', Inl (Exn ''timeout''))]) \<and>
   length [(''Alice'', Inr ''well done'' :: exn + string), (''Bob'', Inl (Exn ''timeout''))] =
     total \<lparr>student_submissions = [(''Alice'', ''a''), (''Bob'', ''b'')], max_concurrent = 1,
      progress_callback = Some (\<lambda>c t n. None)\<rparr>"
proof -
  let ?cfg = "\<lparr>student_submissions = [(''Alice'', ''a''), (''Bob'', ''b'')],
      max_concurrent = 1, progress_callback = Some (\<lambda>c t n. None)\<rparr>"
  let ?evs = "[Acquire 1, Respond 1 (Inl (Exn ''timeout'')), Acquire 0,
      Respond 0 (Inr (''good'', [], 15, 20))] :: result_json event list"
  let ?fevs = "[Acquire 1, Respond 1 (Inl (Exn ''timeout'')), Acquire 0,
      Respond 0 (Inr ''well done'')] :: string event list"
  let ?outs = "[Inr \<lparr>student_name = ''Alice'', feedback_general = ''good'',
        criteres = [], note_finale = 15, note_max = 20\<rparr>, Inl (Exn ''timeout'')]"
  let ?fouts = "[(''Alice'', Inr ''well done'' :: exn + string), (''Bob'', Inl (Exn ''timeout''))]"
  have pos: "0 < max_concurrent ?cfg" by simp
  have quiet: "callback_returns ?cfg" by (simp add: callback_returns_def)
  have r1: "evaluate_all_students_async ?cfg ?evs = Some (Gather_returned ?outs)"
    by code_simp
  have r2: "evaluate_all_students_free_format_async ?cfg ?fevs = Some (Gather_returned ?fouts)"
    by code_simp
  note t = every_run_returns_every_outcome[of ?cfg ?evs "Gather_returned ?outs" ?fevs
      "Gather_returned ?fouts", THEN mp, OF pos, THEN mp, OF quiet]
  from t r1 have l1: "length ?outs = total ?cfg" by blast
  from t r2 have l2: "length ?fouts = total ?cfg" by blast
  from pos quiet r1 l1 r2 l2 show ?thesis by (intro conjI)
qed

text \<open>
  Where the claim as it was written fails. With one student whose evaluation call
  returns and a callback that raises on every invocation, the exception of the callback
  leaves the task and \<open>gather\<close> raises it: the orchestrator returns no list. With a callback
  that raises on its first invocation only, Alice's successful evaluation is replaced by
  a failure entry that holds the callback's exception.
\<close>

theorem callback_exception_counterexample:
  "evaluate_all_students_free_format_async
     \<lparr>student_submissions = [(''Alice'', ''a'')], max_concurrent = 5,
      progress_callback = Some (\<lambda>c t n. Some (Exn ''display failed''))\<rparr>
     [Acquire 0, Respond 0 (Inr ''a good essay'')] = Some (Gather_raised (Exn ''display failed'')) \<and>
   evaluate_all_students_free_format_async
     \<lparr>student_submissions = [(''Alice'', ''a'')], max_concurrent = 5,
      progress_callback = Some (\<lambda>c t n. if c = 1 then Some (Exn ''display failed'') else None)\<rparr>
     [Acquire 0, Respond 0 (Inr ''a good essay'')]
     = Some (Gather_returned [(''Alice'', Inl (Exn ''display failed''))])"
  by code_simp


subsection \<open>The names on the outcomes\<close>

lemma except_branch_value:
  "except_branch cfg on_failure name e s = (s1, Returned v) \<Longrightarrow> v = on_failure name e"
  by (auto simp: except_branch_def split: prod.splits option.splits)

lemma try_statement_value:
  assumes "try_statement cfg on_success on_failure name r s = (s1, Returned v)"
  shows "(\<exists>result. v = on_success name result) \<or> (\<exists>e. v = on_failure name e)"
  using assms
  by (auto simp: try_statement_def split: sum.splits prod.splits option.splits
      dest: except_branch_value)

lemma finish_task_value:
  assumes "i < length (tasks s)"
    and "tasks (finish_task cfg on_success on_failure i r s) ! i = Returned v"
  shows "(\<exists>result. v = on_success (name_of cfg i) result) \<or>
     (\<exists>e. v = on_failure (name_of cfg i) e)"
proof -
  obtain s1 t where st: "try_statement cfg on_success on_failure
      (fst (student_submissions cfg ! i)) r s = (s1, t)"
    by (cases "try_statement cfg on_success on_failure (fst (student_submissions cfg ! i)) r s")
  from try_statement_keeps[OF st] assms have "t = Returned v"
    by (simp add: finish_task_def st)
  with st try_statement_value[of cfg on_success on_failure "name_of cfg i" r s s1 v]
  show ?thesis by (simp add: name_of_def)
qed

lemma returned_values_tagged:
  assumes "start cfg = Inr s0" and "run_events cfg on_success on_failure s0 evs = Some s"
  shows "\<forall>i v. i < length (tasks s) \<longrightarrow> tasks s ! i = Returned v \<longrightarrow>
     (\<exists>result. v = on_success (name_of cfg i) result) \<or>
     (\<exists>e. v = on_failure (name_of cfg i) e)"
  using _ _ assms(2)
proof (rule run_events_invariant)
  show "\<forall>i v. i < length (tasks s0) \<longrightarrow> tasks s0 ! i = Returned v \<longrightarrow>
     (\<exists>result. v = on_success (name_of cfg i) result) \<or>
     (\<exists>e. v = on_failure (name_of cfg i) e)"
    using start_state(3)[OF assms(1)] by simp
next
  fix s :: "'a run_state" and ev s1
  assume p: "\<forall>i v. i < length (tasks s) \<longrightarrow> tasks s ! i = Returned v \<longrightarrow>
     (\<exists>result. v = on_success (name_of cfg i) result) \<or>
     (\<exists>e. v = on_failure (name_of cfg i) e)"
    and st: "step cfg on_success on_failure s ev = Some s1"
  from st show "\<forall>i v. i < length (tasks s1) \<longrightarrow> tasks s1 ! i = Returned v \<longrightarrow>
     (\<exists>result. v = on_success (name_of cfg i) result) \<or>
     (\<exists>e. v = on_failure (name_of cfg i) e)"
  proof (cases rule: step_cases)
    case (acquire j)
    show ?thesis
    proof (intro allI impI)
      fix i v
      assume a: "i < length (tasks s1)" "tasks s1 ! i = Returned v"
      then have "i \<noteq> j" unfolding acquire(5) by auto
      with a p show "(\<exists>result. v = on_success (name_of cfg i) result) \<or>
          (\<exists>e. v = on_failure (name_of cfg i) e)"
        unfolding acquire(5) by simp
    qed
  next
    case (respond j r)
    from finish_task_shape[of cfg on_success on_failure j r s]
    obtain t where t: "tasks s1 = (tasks s)[j := t]" unfolding respond(4) by blast
    show ?thesis
    proof (intro allI impI)
      fix i v
      assume a: "i < length (tasks s1)" "tasks s1 ! i = Returned v"
      show "(\<exists>result. v = on_success (name_of cfg i) result) \<or>
          (\<exists>e. v = on_failure (name_of cfg i) e)"
      proof (cases "i = j")
        case True
        with a(2) respond(2) show ?thesis
          unfolding respond(4) by (auto dest: finish_task_value)
      next
        case False
        with a p show ?thesis unfolding t by simp
      qed
    qed
  qed
qed

lemma orchestrate_tagged:
  assumes "orchestrate cfg on_success on_failure evs = Some (Gather_returned outs)"
  shows "length outs = total cfg \<and>
     (\<forall>i < total cfg. (\<exists>result. outs ! i = on_success (name_of cfg i) result) \<or>
        (\<exists>e. outs ! i = on_failure (name_of cfg i) e))"
proof -
  from assms obtain s0 :: "'a run_state" where st: "start cfg = Inr s0"
    by (cases "start cfg :: exn + 'a run_state") (auto simp: orchestrate_def split: if_splits)
  from assms obtain s where r: "run_events cfg on_success on_failure s0 evs = Some s"
    and g: "gather s = Gather_returned outs"
    unfolding orchestrate_started[OF st] by auto
  from g have t: "tasks s = map Returned outs" by (simp add: gather_returned_iff)
  have "length (tasks s) = total cfg"
    using run_length[OF r] start_state(3)[OF st] by simp
  with t have n: "length outs = total cfg" by simp
  have "(\<exists>result. outs ! i = on_success (name_of cfg i) result) \<or>
        (\<exists>e. outs ! i = on_failure (name_of cfg i) e)" if "i < total cfg" for i
  proof -
    from that n t have "i < length (tasks s)" "tasks s ! i = Returned (outs ! i)" by simp_all
    with returned_values_tagged[OF st r] show ?thesis by blast
  qed
  with n show ?thesis by blast
qed


lemma free_format_names:
  assumes "evaluate_all_students_free_format_async cfg evs = Some (Gather_returned outs)"
  shows "map fst outs = map fst (student_submissions cfg)"
proof (rule nth_equalityI)
  note t = orchestrate_tagged[OF assms[unfolded evaluate_all_students_free_format_async_def]]
  from t show l: "length (map fst outs) = length (map fst (student_submissions cfg))"
    by (simp add: total_def)
  fix i
  assume "i < length (map fst outs)"
  with l have i: "i < total cfg" by (simp add: total_def)
  with t have "fst (outs ! i) = name_of cfg i"
    by (auto simp: free_format_success_def free_format_failure_def)
  with i t show "map fst outs ! i = map fst (student_submissions cfg) ! i"
    by (simp add: name_of_def total_def)
qed

lemma structured_names:
  assumes "evaluate_all_students_async cfg evs = Some (Gather_returned outs)"
    and "i < total cfg" and "outs ! i = Inr res"
  shows "student_name res = name_of cfg i"
proof -
  note t = orchestrate_tagged[OF assms(1)[unfolded evaluate_all_students_async_def]]
  with assms(2) have "(\<exists>j. outs ! i = structured_success (name_of cfg i) j) \<or>
      (\<exists>e. outs ! i = structured_failure (name_of cfg i) e)" by blast
  with assms(3) obtain j where "res = make_evaluation_result (name_of cfg i) j"
    unfolding structured_success_def structured_failure_def by auto
  then show ?thesis by (cases j) (simp add: make_evaluation_result_def)
qed

text \<open>
  Claim C2, as the code has it. In free-form mode every outcome, success or failure,
  is a pair whose first component is the student's name, and the names of the outcomes
  are the keys of the input mapping, in its order: \<open>N\<close> distinct names for \<open>N\<close> distinct
  students. In structured mode there are \<open>N\<close> outcomes in the order of the input mapping,
  and every success outcome carries the name of the student at its position, so the
  successes of distinct students carry distinct names; a failure outcome is the
  exception alone.
\<close>

theorem outcomes_carry_student_names:
  "(evaluate_all_students_free_format_async cfg fevs = Some (Gather_returned fouts) \<longrightarrow>
      map fst fouts = map fst (student_submissions cfg) \<and>
      (distinct (map fst (student_submissions cfg)) \<longrightarrow> distinct (map fst fouts))) \<and>
   (evaluate_all_students_async cfg evs = Some (Gather_returned outs) \<longrightarrow>
      length outs = total cfg \<and>
      (\<forall>i res. i < total cfg \<longrightarrow> outs ! i = Inr res \<longrightarrow> student_name res = name_of cfg i) \<and>
      (distinct (map fst (student_submissions cfg)) \<longrightarrow>
         (\<forall>i j a b. i < j \<longrightarrow> j < total cfg \<longrightarrow> outs ! i = Inr a \<longrightarrow> outs ! j = Inr b \<longrightarrow>
            student_name a \<noteq> student_name b)))"
proof (intro conjI impI allI)
  assume a: "evaluate_all_students_free_format_async cfg fevs = Some (Gather_returned fouts)"
  from free_format_names[OF a]
  show m: "map fst fouts = map fst (student_submissions cfg)" .
  assume "distinct (map fst (student_submissions cfg))"
  with m show "distinct (map fst fouts)" by simp
next
  assume a: "evaluate_all_students_async cfg evs = Some (Gather_returned outs)"
  from orchestrate_tagged[OF a[unfolded evaluate_all_students_async_def]]
  show "length outs = total cfg" by blast
next
  fix i res
  assume "evaluate_all_students_async cfg evs = Some (Gather_returned outs)"
    "i < total cfg" "outs ! i = Inr res"
  then show "student_name res = name_of cfg i" by (rule structured_names)
next
  fix i j a b
  assume r: "evaluate_all_students_async cfg evs = Some (Gather_returned outs)"
    and d: "distinct (map fst (student_submissions cfg))"
    and ij: "i < j" "j < total cfg" and o: "outs ! i = Inr a" "outs ! j = Inr b"
  from ij have i: "i < total cfg" by simp
  from structured_names[OF r i o(1)] structured_names[OF r ij(2) o(2)]
  have n: "student_name a = name_of cfg i" "student_name b = name_of cfg j" .
  have "map fst (student_submissions cfg) ! i \<noteq> map fst (student_submissions cfg) ! j"
    using d ij i unfolding distinct_conv_nth total_def by simp
  then have "name_of cfg i \<noteq> name_of cfg j"
    using ij i by (simp add: name_of_def total_def)
  with n show "student_name a \<noteq> student_name b" by simp
qed

text \<open>Alice and Bob, both evaluated with success in structured mode; in free-form mode
  Bob's call raises.\<close>

theorem outcomes_carry_student_names_witness:
  "evaluate_all_students_free_format_async
     \<lparr>student_submissions = [(''Alice'', ''a''), (''Bob'', ''b'')], max_concurrent = 5,
      progress_callback = None\<rparr>
     [Acquire 0, Acquire 1, Respond 1 (Inl (Exn ''timeout'')), Respond 0 (Inr ''well done'')]
   = Some (Gather_returned [(''Alice'', Inr ''well done''), (''Bob'', Inl (Exn ''timeout''))]) \<and>
   map fst [(''Alice'', Inr ''well done'' :: exn + string), (''Bob'', Inl (Exn ''timeout''))] =
     map fst [(''Alice'', ''a''), (''Bob'', ''b'')] \<and>
   evaluate_all_students_async
     \<lparr>student_submissions = [(''Alice'', ''a''), (''Bob'', ''b'')], max_concurrent = 5,
      progress_callback = None\<rparr>
     [Acquire 0, Acquire 1, Respond 1 (Inr (''fair'', [], 11, 20)),
      Respond 0 (Inr (''good'', [], 15, 20))]
   = Some (Gather_returned
       [Inr \<lparr>student_name = ''Alice'', feedback_general = ''good'', criteres = [],
             note_finale = 15, note_max = 20\<rparr>,
        Inr \<lparr>student_name = ''Bob'', feedback_general = ''fair'', criteres = [],
             note_finale = 11, note_max = 20\<rparr>]) \<and>
   student_name \<lparr>student_name = ''Bob'', feedback_general = ''fair'', criteres = [],
             note_finale = 11, note_max = 20\<rparr> =
     name_of \<lparr>student_submissions = [(''Alice'', ''a''), (''Bob'', ''b'')], max_concurrent = 5,
      progress_callback = None\<rparr> 1"
proof -
  let ?cfg = "\<lparr>student_submissions = [(''Alice'', ''a''), (''Bob'', ''b'')],
      max_concurrent = 5, progress_callback = None\<rparr>"
  let ?fevs = "[Acquire 0, Acquire 1, Respond 1 (Inl (Exn ''timeout'')),
      Respond 0 (Inr ''well done'')] :: string event list"
  let ?evs = "[Acquire 0, Acquire 1, Respond 1 (Inr (''fair'', [], 11, 20)),
      Respond 0 (Inr (''good'', [], 15, 20))] :: result_json event list"
  let ?fouts = "[(''Alice'', Inr ''well done'' :: exn + string), (''Bob'', Inl (Exn ''timeout''))]"
  let ?bob = "\<lparr>student_name = ''Bob'', feedback_general = ''fair'', criteres = [],
             note_finale = 11, note_max = 20\<rparr>"
  let ?outs = "[Inr \<lparr>student_name = ''Alice'', feedback_general = ''good'', criteres = [],
             note_finale = 15, note_max = 20\<rparr>, Inr ?bob] :: (exn + evaluation_result) list"
  have r1: "evaluate_all_students_free_format_async ?cfg ?fevs = Some (Gather_returned ?fouts)"
    by code_simp
  have r2: "evaluate_all_students_async ?cfg ?evs = Some (Gather_returned ?outs)"
    by code_simp
  note t = outcomes_carry_student_names[of ?cfg ?fevs ?fouts ?evs ?outs]
  from t r1 have a: "map fst ?fouts = map fst (student_submissions ?cfg)" by blast
  have i: "(1::nat) < total ?cfg" by (simp add: total_def)
  have o: "?outs ! 1 = Inr ?bob" by simp
  from t r2 i o have b: "student_name ?bob = name_of ?cfg 1" by blast
  from r1 a r2 b show ?thesis by simp
qed

text \<open>
  Where the claim as it was written fails. In structured mode a task whose evaluation
  call raises returns the exception alone: the outcome of Alice's failed evaluation and
  the outcome of Bob's are the same value, and neither holds a name.
\<close>

theorem structured_failure_untagged_counterexample:
  "evaluate_all_students_async
     \<lparr>student_submissions = [(''Alice'', ''a'')], max_concurrent = 5, progress_callback = None\<rparr>
     [Acquire 0, Respond 0 (Inl (Exn ''timeout''))] = Some (Gather_returned [Inl (Exn ''timeout'')]) \<and>
   evaluate_all_students_async
     \<lparr>student_submissions = [(''Bob'', ''b'')], max_concurrent = 5, progress_callback = None\<rparr>
     [Acquire 0, Respond 0 (Inl (Exn ''timeout''))] = Some (Gather_returned [Inl (Exn ''timeout'')]) \<and>
   evaluate_all_students_free_format_async
     \<lparr>student_submissions = [(''Alice'', ''a'')], max_concurrent = 5, progress_callback = None\<rparr>
     [Acquire 0, Respond 0 (Inl (Exn ''timeout''))]
     = Some (Gather_returned [(''Alice'', Inl (Exn ''timeout''))])"
  by code_simp

end
